theory Spec2Isabelle
  imports
    Complex_Main
    "HOL-Library.Char_ord"
    "HOL-Library.List_Lexorder"
    "HOL-Library.Product_Lexorder"
    "HOL-Library.AList"
begin

section \<open>CacheGrid: storage core and engine cache\<close>

text \<open>
  A shallow embedding of \<^verbatim>\<open>src/cachegrid/core/storage.py\<close> (the entry record, the
  three eviction policies and \<^verbatim>\<open>AdvancedStorage\<close>) and of the \<^verbatim>\<open>LRUCache\<close> and
  \<^verbatim>\<open>CacheEngine\<close> classes of \<^verbatim>\<open>src/cachegrid/core/engine.py\<close>.

  Conventions of the embedding.
  \<^item> Every public operation runs under the object's lock, so an operation is a function
    from the state before to the state after.
  \<^item> \<^verbatim>\<open>time.time()\<close> is an argument \<open>now\<close> of the operation; the reads of the clock
    inside one operation all see that value. Timestamps and durations are Python floats,
    that is doubles; a \<open>real\<close> stands for the value of a finite double, comparisons are
    exact, and the one arithmetic operation the code performs on them, the sum
    \<^verbatim>\<open>created_at + ttl\<close>, is rounded as a double sum is (\<open>fadd\<close> below).
  \<^item> A Python \<^verbatim>\<open>dict\<close> is an association list in insertion order: \<open>map_of\<close> looks a
    key up, \<open>AList.update\<close> assigns (keeping the position of a present key, appending
    an absent one), \<open>AList.delete\<close> removes, \<open>length\<close> is \<^verbatim>\<open>len\<close>.
  \<^item> A \<^verbatim>\<open>heapq\<close> heap is the list of its elements kept in ascending order:
    \<^verbatim>\<open>heappush\<close> is \<open>insort\<close> and \<^verbatim>\<open>heappop\<close> takes the head, which is the
    least element, as \<^verbatim>\<open>heappop\<close> returns. Tuples compare lexicographically.
  \<^item> In the storage core, keys and tags are byte strings (the UTF-8 encoding), so
    \<^verbatim>\<open>len(key.encode('utf-8'))\<close> is \<open>length\<close>; values are of an arbitrary type \<open>'v\<close>, and
    the byte length of \<^verbatim>\<open>str(value)\<close> is a parameter \<open>vsz :: 'v \<Rightarrow> nat\<close> of the operations
    that need it. \<^verbatim>\<open>AdvancedStorage.set\<close> computes that size while it builds the item, before
    it touches the state, so a value whose rendering raises leaves the storage as it
    was; the storage core is modelled for the values whose size exists.
  \<^item> In the engine's cache, where \<^verbatim>\<open>set\<close> stores the entry before anything is encoded, the
    two encodings are parameters that can raise: \<open>kenc\<close> for \<^verbatim>\<open>len(key.encode('utf-8'))\<close>
    and \<open>venc\<close> for \<^verbatim>\<open>len(str(value).encode('utf-8'))\<close>, each giving the byte length or the
    exception.
  \<^item> A raised exception is an \<open>error\<close> value on the left of a sum.
\<close>

type_synonym key = string
type_synonym tag = string

datatype error = KeyError | ZeroDivisionError | RuntimeError | UnicodeEncodeError

subsection \<open>Sums of doubles\<close>

text \<open>
  The sum of two doubles is the double nearest to the exact sum, ties going to the even
  significand. \<open>rne\<close> rounds a real to the nearest integer, ties to even;
  \<open>binary_exponent x\<close> is the \<open>e\<close> with \<open>2 ^ e \<le> x < 2 ^ (e + 1)\<close> for positive \<open>x\<close>, found
  by doubling or halving; \<open>ulp x\<close> is the spacing of the doubles in the binade of \<open>x\<close>
  (53 significant bits); \<open>double_round\<close> rounds to the nearest multiple of it. The
  exponent is not bounded here. That does not
  change the outcome of comparing a rounded sum of two finite doubles with a finite
  double, the only use the code makes of such a sum: a sum that overflows to an infinity
  lies beyond every finite double on the same side as the value computed here, and a sum
  of two doubles that falls below the normal range is exact in both. \<open>is_double\<close> holds of
  the reals that rounding leaves unchanged, among them every finite double.
\<close>

definition rne :: "real \<Rightarrow> int" where
  "rne y =
     (let f = \<lfloor>y\<rfloor>; r = y - of_int f
      in if r < 1 / 2 then f else if 1 / 2 < r then f + 1 else if even f then f else f + 1)"

function binary_exponent :: "real \<Rightarrow> int" where
  "binary_exponent x =
     (if x \<le> 0 then 0
      else if x < 1 then binary_exponent (2 * x) - 1
      else if 2 \<le> x then binary_exponent (x / 2) + 1
      else 0)"
  by auto

termination
proof (relation "measure (\<lambda>x. nat \<bar>\<lfloor>log 2 x\<rfloor>\<bar>)")
  show "wf (measure (\<lambda>x. nat \<bar>\<lfloor>log 2 x\<rfloor>\<bar>))" by simp
next
  fix x :: real
  assume a: "\<not> x \<le> 0" "x < 1"
  then have "log 2 (2 * x) = 1 + log 2 x" by (simp add: log_mult)
  then have f: "\<lfloor>log 2 (2 * x)\<rfloor> = 1 + \<lfloor>log 2 x\<rfloor>" by simp
  from a have "log 2 x < 0" by simp
  then have "\<lfloor>log 2 x\<rfloor> \<le> - 1" by (simp add: floor_le_iff)
  with f show "(2 * x, x) \<in> measure (\<lambda>x. nat \<bar>\<lfloor>log 2 x\<rfloor>\<bar>)" by simp
next
  fix x :: real
  assume a: "\<not> x \<le> 0" "\<not> x < 1" "2 \<le> x"
  then have "log 2 (x / 2) = log 2 x - 1" by (simp add: log_divide)
  then have f: "\<lfloor>log 2 (x / 2)\<rfloor> = \<lfloor>log 2 x\<rfloor> - 1" by simp
  from a have "1 \<le> log 2 x" by (simp add: le_log_iff)
  then have "1 \<le> \<lfloor>log 2 x\<rfloor>" by (simp add: le_floor_iff)
  with f show "(x / 2, x) \<in> measure (\<lambda>x. nat \<bar>\<lfloor>log 2 x\<rfloor>\<bar>)" by simp
qed

declare binary_exponent.simps [simp del]

definition ulp :: "real \<Rightarrow> real" where
  "ulp x = 2 powi (binary_exponent \<bar>x\<bar> - 52)"

definition double_round :: "real \<Rightarrow> real" where
  "double_round x = (if x = 0 then 0 else ulp x * of_int (rne (x / ulp x)))"

definition fadd :: "real \<Rightarrow> real \<Rightarrow> real" where
  "fadd a b = double_round (a + b)"

definition is_double :: "real \<Rightarrow> bool" where
  "is_double a \<longleftrightarrow> double_round a = a"

text \<open>The same exponent, by the logarithm; used in the proofs about rounding only.\<close>

definition expo :: "real \<Rightarrow> int" where
  "expo x = \<lfloor>log 2 \<bar>x\<bar>\<rfloor>"

subsection \<open>\<^verbatim>\<open>StorageItem\<close>\<close>

record 'v StorageItem =
  key :: key
  val :: 'v
  created_at :: real
  ttl :: "real option"
  item_access_count :: nat
  last_accessed :: real
  size_bytes :: int
  tags :: "tag list"

definition is_expired :: "'v StorageItem \<Rightarrow> real \<Rightarrow> bool" where
  "is_expired item now =
     (case ttl item of None \<Rightarrow> False | Some d \<Rightarrow> now > fadd (created_at item) d)"

definition estimate_size :: "('v \<Rightarrow> nat) \<Rightarrow> key \<Rightarrow> 'v \<Rightarrow> int" where
  "estimate_size vsz k v = int (length k) + int (vsz v) + 200"

text \<open>
  The constructor call of \<^verbatim>\<open>AdvancedStorage.set\<close>, with \<^verbatim>\<open>__post_init__\<close> applied:
  \<^verbatim>\<open>last_accessed\<close> defaults to \<^verbatim>\<open>created_at\<close>, and \<^verbatim>\<open>size_bytes\<close>, left at 0 by the
  caller, is the estimate.
\<close>

definition new_item ::
  "('v \<Rightarrow> nat) \<Rightarrow> key \<Rightarrow> 'v \<Rightarrow> real \<Rightarrow> real option \<Rightarrow> tag list \<Rightarrow> 'v StorageItem" where
  "new_item vsz k v now t tgs =
     \<lparr> key = k, val = v, created_at = now, ttl = t, item_access_count = 0,
       last_accessed = now, size_bytes = estimate_size vsz k v, tags = tgs \<rparr>"

subsection \<open>Eviction policies\<close>

text \<open>
  The three subclasses of \<^verbatim>\<open>EvictionPolicy\<close> with their fields:
  \<^verbatim>\<open>LRUEvictionPolicy.access_order\<close> (an \<^verbatim>\<open>OrderedDict\<close>, here the list of its keys),
  \<^verbatim>\<open>LFUEvictionPolicy\<close> with \<^verbatim>\<open>frequency_heap\<close>, \<^verbatim>\<open>key_to_freq\<close> and \<^verbatim>\<open>counter\<close>,
  and \<^verbatim>\<open>TTLEvictionPolicy.expiry_heap\<close>.
\<close>

datatype policy =
    LRU "key list"
  | LFU "(nat \<times> nat \<times> key) list" "(key \<times> nat) list" nat
  | TTL "(real \<times> key) list"

fun on_access :: "policy \<Rightarrow> key \<Rightarrow> 'v StorageItem \<Rightarrow> error + policy" where
  "on_access (LRU ao) k item =
     (if k \<in> set ao then Inr (LRU (removeAll k ao @ [k])) else Inl KeyError)"
| "on_access (LFU h f c) k item =
     (let old_freq = (case map_of f k of None \<Rightarrow> 0 | Some n \<Rightarrow> n);
          new_freq = old_freq + 1
      in Inr (LFU (insort (new_freq, c, k) h) (AList.update k new_freq f) (c + 1)))"
| "on_access (TTL h) k item = Inr (TTL h)"

fun on_insert :: "policy \<Rightarrow> key \<Rightarrow> 'v StorageItem \<Rightarrow> policy" where
  "on_insert (LRU ao) k item = LRU (if k \<in> set ao then ao else ao @ [k])"
| "on_insert (LFU h f c) k item =
     LFU (insort (1, c, k) h) (AList.update k 1 f) (c + 1)"
| "on_insert (TTL h) k item =
     (case ttl item of
        None \<Rightarrow> TTL h
      | Some d \<Rightarrow> TTL (insort (fadd (created_at item) d, k) h))"

fun on_remove :: "policy \<Rightarrow> key \<Rightarrow> policy" where
  "on_remove (LRU ao) k = LRU (removeAll k ao)"
| "on_remove (LFU h f c) k = LFU h (AList.delete k f) c"
| "on_remove (TTL h) k = TTL h"

text \<open>
  The loop of \<^verbatim>\<open>LFUEvictionPolicy.select_victim\<close>: pop the least heap entry until one
  is found whose key is tracked with exactly the recorded frequency. The result is the
  victim and the heap that is left.
\<close>

fun lfu_select ::
  "(nat \<times> nat \<times> key) list \<Rightarrow> (key \<times> nat) list \<Rightarrow> key option \<times> (nat \<times> nat \<times> key) list" where
  "lfu_select [] f = (None, [])"
| "lfu_select ((freq, timestamp, k) # h) f =
     (if map_of f k = Some freq then (Some k, h) else lfu_select h f)"

text \<open>The loop of \<^verbatim>\<open>TTLEvictionPolicy.select_victim\<close>.\<close>

fun ttl_select ::
  "(real \<times> key) list \<Rightarrow> (key \<times> 'v StorageItem) list \<Rightarrow> real \<Rightarrow> key option \<times> (real \<times> key) list" where
  "ttl_select [] st now = (None, [])"
| "ttl_select ((expiry_time, k) # h) st now =
     (case map_of st k of
        None \<Rightarrow> ttl_select h st now
      | Some item \<Rightarrow>
          (case ttl item of
             None \<Rightarrow> ttl_select h st now
           | Some d \<Rightarrow>
               if fadd (created_at item) d \<le> now then (Some k, h) else ttl_select h st now))"

fun select_victim ::
  "policy \<Rightarrow> (key \<times> 'v StorageItem) list \<Rightarrow> real \<Rightarrow> key option \<times> policy" where
  "select_victim (LRU ao) st now = (case ao of [] \<Rightarrow> (None, LRU ao) | k # _ \<Rightarrow> (Some k, LRU ao))"
| "select_victim (LFU h f c) st now = (let r = lfu_select h f in (fst r, LFU (snd r) f c))"
| "select_victim (TTL h) st now = (let r = ttl_select h st now in (fst r, TTL (snd r)))"

subsection \<open>\<^verbatim>\<open>AdvancedStorage\<close>\<close>

record 'v AdvancedStorage =
  max_size :: int
  max_memory_bytes :: int
  storage :: "(key \<times> 'v StorageItem) list"
  tag_index :: "(tag \<times> key set) list"
  eviction_policy :: policy
  total_memory_bytes :: int
  access_count :: nat
  hit_count :: nat
  miss_count :: nat
  eviction_count :: nat

text \<open>
  \<^verbatim>\<open>__init__\<close>: the policy argument is the policy object (the default is a fresh
  \<^verbatim>\<open>LRUEvictionPolicy\<close>, that is \<open>LRU []\<close>).
\<close>

definition init :: "int \<Rightarrow> int \<Rightarrow> policy \<Rightarrow> 'v AdvancedStorage" where
  "init msize max_memory_mb pol =
     \<lparr> max_size = msize, max_memory_bytes = max_memory_mb * 1024 * 1024,
       storage = [], tag_index = [], eviction_policy = pol,
       total_memory_bytes = 0, access_count = 0, hit_count = 0, miss_count = 0,
       eviction_count = 0 \<rparr>"

text \<open>
  One round of the tag loop of \<^verbatim>\<open>_remove_item\<close>: \<^verbatim>\<open>tag_index\<close> is a \<^verbatim>\<open>defaultdict(set)\<close>,
  so reading a missing tag gives the empty set; an empty bucket is deleted.
\<close>

definition untag :: "key \<Rightarrow> tag \<Rightarrow> (tag \<times> key set) list \<Rightarrow> (tag \<times> key set) list" where
  "untag k t ti =
     (let b = (case map_of ti t of None \<Rightarrow> {} | Some b \<Rightarrow> b) - {k}
      in if b = {} then AList.delete t ti else AList.update t b ti)"

definition add_tag :: "key \<Rightarrow> tag \<Rightarrow> (tag \<times> key set) list \<Rightarrow> (tag \<times> key set) list" where
  "add_tag k t ti =
     AList.update t (insert k (case map_of ti t of None \<Rightarrow> {} | Some b \<Rightarrow> b)) ti"

definition remove_item :: "'v AdvancedStorage \<Rightarrow> key \<Rightarrow> 'v AdvancedStorage" where
  "remove_item s k =
     (case map_of (storage s) k of
        None \<Rightarrow> s
      | Some item \<Rightarrow>
          s\<lparr> tag_index := fold (untag k) (tags item) (tag_index s),
             total_memory_bytes := total_memory_bytes s - size_bytes item,
             storage := AList.delete k (storage s),
             eviction_policy := on_remove (eviction_policy s) k \<rparr>)"

text \<open>
  \<^verbatim>\<open>_evict_one\<close>. The test \<^verbatim>\<open>if victim_key:\<close> is false for \<^verbatim>\<open>None\<close> and for the empty
  string. The counter is incremented after \<^verbatim>\<open>_remove_item\<close> whether or not that call
  found the key.
\<close>

definition evict_one :: "'v AdvancedStorage \<Rightarrow> real \<Rightarrow> bool \<times> 'v AdvancedStorage" where
  "evict_one s now =
     (let r = select_victim (eviction_policy s) (storage s) now;
          s1 = s\<lparr> eviction_policy := snd r \<rparr>
      in case fst r of
           None \<Rightarrow> (False, s1)
         | Some victim_key \<Rightarrow>
             if victim_key = [] then (False, s1)
             else (True, (remove_item s1 victim_key)\<lparr> eviction_count := eviction_count s1 + 1 \<rparr>))"

definition need_space :: "'v AdvancedStorage \<Rightarrow> int \<Rightarrow> bool" where
  "need_space s sz \<longleftrightarrow>
     int (length (storage s)) \<ge> max_size s \<or> total_memory_bytes s + sz > max_memory_bytes s"

text \<open>
  The \<^verbatim>\<open>while\<close> loop of \<^verbatim>\<open>set\<close>. Nothing in the source bounds its iterations, so it is
  a partial function: \<open>None\<close> is a loop that never exits, \<open>Some (False, s)\<close> the early
  \<^verbatim>\<open>return False\<close>, \<open>Some (True, s)\<close> the normal exit.
\<close>

partial_function (option) make_space ::
  "'v AdvancedStorage \<Rightarrow> real \<Rightarrow> int \<Rightarrow> (bool \<times> 'v AdvancedStorage) option" where
  "make_space s now sz =
     (if need_space s sz
      then (let r = evict_one s now in
            if fst r then make_space (snd r) now sz else Some (False, snd r))
      else Some (True, s))"

definition install :: "'v AdvancedStorage \<Rightarrow> key \<Rightarrow> 'v StorageItem \<Rightarrow> 'v AdvancedStorage" where
  "install s k item =
     s\<lparr> storage := AList.update k item (storage s),
        total_memory_bytes := total_memory_bytes s + size_bytes item,
        tag_index := fold (add_tag k) (tags item) (tag_index s),
        eviction_policy := on_insert (eviction_policy s) k item \<rparr>"

definition AS_set ::
  "('v \<Rightarrow> nat) \<Rightarrow> 'v AdvancedStorage \<Rightarrow> real \<Rightarrow> key \<Rightarrow> 'v \<Rightarrow> real option \<Rightarrow> tag list option
     \<Rightarrow> (bool \<times> 'v AdvancedStorage) option" where
  "AS_set vsz s now k v t tgs =
     (let item = new_item vsz k v now t (case tgs of None \<Rightarrow> [] | Some ts \<Rightarrow> ts);
          s1 = (if map_of (storage s) k \<noteq> None then remove_item s k else s)
      in case make_space s1 now (size_bytes item) of
           None \<Rightarrow> None
         | Some (False, s2) \<Rightarrow> Some (False, s2)
         | Some (True, s2) \<Rightarrow> Some (True, install s2 k item))"

definition AS_get ::
  "'v AdvancedStorage \<Rightarrow> real \<Rightarrow> key \<Rightarrow> error + ('v option \<times> 'v AdvancedStorage)" where
  "AS_get s now k =
     (let s1 = s\<lparr> access_count := access_count s + 1 \<rparr>
      in case map_of (storage s1) k of
           None \<Rightarrow> Inr (None, s1\<lparr> miss_count := miss_count s1 + 1 \<rparr>)
         | Some item \<Rightarrow>
             if is_expired item now
             then (let s2 = remove_item s1 k in Inr (None, s2\<lparr> miss_count := miss_count s2 + 1 \<rparr>))
             else (let item' = item\<lparr> last_accessed := now,
                                     item_access_count := item_access_count item + 1 \<rparr>
                   in case on_access (eviction_policy s1) k item' of
                        Inl e \<Rightarrow> Inl e
                      | Inr p \<Rightarrow>
                          Inr (Some (val item),
                               s1\<lparr> storage := AList.update k item' (storage s1),
                                   eviction_policy := p,
                                   hit_count := hit_count s1 + 1 \<rparr>)))"

definition AS_delete :: "'v AdvancedStorage \<Rightarrow> key \<Rightarrow> bool \<times> 'v AdvancedStorage" where
  "AS_delete s k =
     (if map_of (storage s) k \<noteq> None then (True, remove_item s k) else (False, s))"

definition AS_clear :: "'v AdvancedStorage \<Rightarrow> nat \<times> 'v AdvancedStorage" where
  "AS_clear s =
     (length (storage s), s\<lparr> storage := [], tag_index := [], total_memory_bytes := 0 \<rparr>)"


text \<open>
  \<^verbatim>\<open>get_stats\<close>. The dictionary is a record; \<^verbatim>\<open>/\<close> on Python integers is the quotient as
  a \<open>real\<close>. The expression for \<^verbatim>\<open>memory_usage_percent\<close> divides by \<^verbatim>\<open>max_memory_bytes\<close>
  unguarded and raises \<^verbatim>\<open>ZeroDivisionError\<close> when that is 0.
\<close>

record stats_snapshot =
  st_current_size :: nat
  st_max_size :: int
  st_memory_usage_bytes :: int
  st_max_memory_bytes :: int
  st_memory_usage_percent :: real
  st_access_count :: nat
  st_hit_count :: nat
  st_miss_count :: nat
  st_hit_ratio :: real
  st_eviction_count :: nat
  st_tag_count :: nat
  st_eviction_policy :: string

fun policy_name :: "policy \<Rightarrow> string" where
  "policy_name (LRU _) = ''LRUEvictionPolicy''"
| "policy_name (LFU _ _ _) = ''LFUEvictionPolicy''"
| "policy_name (TTL _) = ''TTLEvictionPolicy''"

definition get_stats :: "'v AdvancedStorage \<Rightarrow> error + stats_snapshot" where
  "get_stats s =
     (let hit_ratio = (if access_count s > 0 then real (hit_count s) / real (access_count s) else 0)
      in if max_memory_bytes s = 0 then Inl ZeroDivisionError
         else Inr \<lparr> st_current_size = length (storage s),
                    st_max_size = max_size s,
                    st_memory_usage_bytes = total_memory_bytes s,
                    st_max_memory_bytes = max_memory_bytes s,
                    st_memory_usage_percent =
                      (real_of_int (total_memory_bytes s) / real_of_int (max_memory_bytes s)) * 100,
                    st_access_count = access_count s,
                    st_hit_count = hit_count s,
                    st_miss_count = miss_count s,
                    st_hit_ratio = hit_ratio,
                    st_eviction_count = eviction_count s,
                    st_tag_count = length (tag_index s),
                    st_eviction_policy = policy_name (eviction_policy s) \<rparr>)"

subsection \<open>Sequences of operations on the storage core\<close>

text \<open>
  A call of one of the public operations, and a run of timestamped calls from a given
  state. A call that raises, or that never returns, ends the run with \<open>None\<close>.
\<close>

datatype 'v op = Get key | Set key 'v "real option" "tag list option" | Delete key | Clear

fun step :: "('v \<Rightarrow> nat) \<Rightarrow> 'v AdvancedStorage \<Rightarrow> real \<Rightarrow> 'v op \<Rightarrow> 'v AdvancedStorage option" where
  "step vsz s now (Get k) = (case AS_get s now k of Inl e \<Rightarrow> None | Inr r \<Rightarrow> Some (snd r))"
| "step vsz s now (Set k v t tgs) = map_option snd (AS_set vsz s now k v t tgs)"
| "step vsz s now (Delete k) = Some (snd (AS_delete s k))"
| "step vsz s now Clear = Some (snd (AS_clear s))"

fun run :: "('v \<Rightarrow> nat) \<Rightarrow> 'v AdvancedStorage \<Rightarrow> (real \<times> 'v op) list \<Rightarrow> 'v AdvancedStorage option" where
  "run vsz s [] = Some s"
| "run vsz s (c # cs) =
     (case step vsz s (fst c) (snd c) of None \<Rightarrow> None | Some s' \<Rightarrow> run vsz s' cs)"

fun is_Get :: "'v op \<Rightarrow> bool" where
  "is_Get (Get k) = True"
| "is_Get _ = False"

definition lookups :: "(real \<times> 'v op) list \<Rightarrow> nat" where
  "lookups cs = length (filter (\<lambda>c. is_Get (snd c)) cs)"

subsection \<open>The engine's \<^verbatim>\<open>LRUCache\<close>\<close>

record 'v CacheItem =
  ci_value :: 'v
  ci_created_at :: real
  ci_ttl :: "real option"
  ci_access_count :: nat
  ci_last_accessed :: real

definition ci_is_expired :: "'v CacheItem \<Rightarrow> real \<Rightarrow> bool" where
  "ci_is_expired item now =
     (case ci_ttl item of None \<Rightarrow> False | Some d \<Rightarrow> now > fadd (ci_created_at item) d)"

record CacheStats =
  hits :: nat
  misses :: nat
  sets :: nat
  deletes :: nat
  evictions :: nat
  expired_items :: nat
  current_size :: int
  stats_max_size :: int
  memory_usage_bytes :: int

definition hit_ratio :: "CacheStats \<Rightarrow> real" where
  "hit_ratio st =
     (let total = hits st + misses st in if total > 0 then real (hits st) / real total else 0)"

record 'v LRUCache =
  lc_max_size :: int
  cache :: "(key \<times> 'v CacheItem) list"
  stats :: CacheStats

definition lc_init :: "int \<Rightarrow> 'v LRUCache" where
  "lc_init msize =
     \<lparr> lc_max_size = msize, cache = [],
       stats = \<lparr> hits = 0, misses = 0, sets = 0, deletes = 0, evictions = 0,
                 expired_items = 0, current_size = 0, stats_max_size = msize,
                 memory_usage_bytes = 0 \<rparr> \<rparr>"

text \<open>
  \<^verbatim>\<open>_update_memory_usage\<close> walks the cache in order and encodes every key and the rendering
  of every value. The first encoding that raises ends the walk with its exception, and
  \<^verbatim>\<open>memory_usage_bytes\<close> keeps its old value; otherwise the total is stored.
\<close>

fun cache_bytes ::
  "(key \<Rightarrow> error + nat) \<Rightarrow> ('v \<Rightarrow> error + nat) \<Rightarrow> (key \<times> 'v CacheItem) list \<Rightarrow> error + int" where
  "cache_bytes kenc venc [] = Inr 0"
| "cache_bytes kenc venc ((k, item) # rest) =
     (case kenc k of
        Inl e \<Rightarrow> Inl e
      | Inr key_size \<Rightarrow>
          (case venc (ci_value item) of
             Inl e \<Rightarrow> Inl e
           | Inr value_size \<Rightarrow>
               (case cache_bytes kenc venc rest of
                  Inl e \<Rightarrow> Inl e
                | Inr rest_size \<Rightarrow> Inr (int key_size + int value_size + 100 + rest_size))))"

definition update_memory_usage ::
  "(key \<Rightarrow> error + nat) \<Rightarrow> ('v \<Rightarrow> error + nat) \<Rightarrow> 'v LRUCache \<Rightarrow> error + 'v LRUCache" where
  "update_memory_usage kenc venc c =
     (case cache_bytes kenc venc (cache c) of
        Inl e \<Rightarrow> Inl e
      | Inr total_size \<Rightarrow> Inr (c\<lparr> stats := (stats c)\<lparr> memory_usage_bytes := total_size \<rparr> \<rparr>))"

definition evict_lru :: "'v LRUCache \<Rightarrow> 'v LRUCache" where
  "evict_lru c =
     (case cache c of
        [] \<Rightarrow> c
      | (lru_key, _) # _ \<Rightarrow>
          c\<lparr> cache := AList.delete lru_key (cache c),
             stats := (stats c)\<lparr> evictions := evictions (stats c) + 1,
                                 current_size := current_size (stats c) - 1 \<rparr> \<rparr>)"

text \<open>
  \<^verbatim>\<open>set\<close> stores the entry and counts the call before it recomputes the byte total, so an
  exception of \<^verbatim>\<open>_update_memory_usage\<close> leaves the cache with the entry stored. The result
  is the exception or the returned value, paired with the cache after the call.
\<close>

definition LRUCache_set ::
  "(key \<Rightarrow> error + nat) \<Rightarrow> ('v \<Rightarrow> error + nat) \<Rightarrow> 'v LRUCache \<Rightarrow> real \<Rightarrow> key \<Rightarrow> 'v
     \<Rightarrow> real option \<Rightarrow> (error + bool) \<times> 'v LRUCache" where
  "LRUCache_set kenc venc c now k v t =
     (let item = \<lparr> ci_value = v, ci_created_at = now, ci_ttl = t, ci_access_count = 0,
                   ci_last_accessed = now \<rparr>;
          c1 = (if map_of (cache c) k \<noteq> None
                then c\<lparr> cache := AList.delete k (cache c) @ [(k, item)] \<rparr>
                else (let c' = (if int (length (cache c)) \<ge> lc_max_size c then evict_lru c else c)
                      in c'\<lparr> cache := AList.update k item (cache c'),
                            stats := (stats c')\<lparr> current_size := current_size (stats c') + 1 \<rparr> \<rparr>));
          c2 = c1\<lparr> stats := (stats c1)\<lparr> sets := sets (stats c1) + 1 \<rparr> \<rparr>
      in (case update_memory_usage kenc venc c2 of
            Inl e \<Rightarrow> (Inl e, c2)
          | Inr c3 \<Rightarrow> (Inr True, c3)))"

definition LRUCache_delete ::
  "(key \<Rightarrow> error + nat) \<Rightarrow> ('v \<Rightarrow> error + nat) \<Rightarrow> 'v LRUCache \<Rightarrow> key
     \<Rightarrow> (error + bool) \<times> 'v LRUCache" where
  "LRUCache_delete kenc venc c k =
     (if map_of (cache c) k \<noteq> None
      then (let c1 = c\<lparr> cache := AList.delete k (cache c),
                         stats := (stats c)\<lparr> deletes := deletes (stats c) + 1,
                                             current_size := current_size (stats c) - 1 \<rparr> \<rparr>
            in (case update_memory_usage kenc venc c1 of
                  Inl e \<Rightarrow> (Inl e, c1)
                | Inr c2 \<Rightarrow> (Inr True, c2)))
      else (Inr False, c))"

definition LRUCache_clear ::
  "(key \<Rightarrow> error + nat) \<Rightarrow> ('v \<Rightarrow> error + nat) \<Rightarrow> 'v LRUCache \<Rightarrow> (error + nat) \<times> 'v LRUCache" where
  "LRUCache_clear kenc venc c =
     (let count = length (cache c);
          c1 = c\<lparr> cache := [], stats := (stats c)\<lparr> current_size := 0 \<rparr> \<rparr>
      in (case update_memory_usage kenc venc c1 of
            Inl e \<Rightarrow> (Inl e, c1)
          | Inr c2 \<Rightarrow> (Inr count, c2)))"

definition LRUCache_get :: "'v LRUCache \<Rightarrow> real \<Rightarrow> key \<Rightarrow> 'v option \<times> 'v LRUCache" where
  "LRUCache_get c now k =
     (case map_of (cache c) k of
        None \<Rightarrow> (None, c\<lparr> stats := (stats c)\<lparr> misses := misses (stats c) + 1 \<rparr> \<rparr>)
      | Some item \<Rightarrow>
          if ci_is_expired item now
          then (None, c\<lparr> cache := AList.delete k (cache c),
                         stats := (stats c)\<lparr> misses := misses (stats c) + 1,
                                             expired_items := expired_items (stats c) + 1,
                                             current_size := current_size (stats c) - 1 \<rparr> \<rparr>)
          else (let item' = item\<lparr> ci_last_accessed := now,
                                  ci_access_count := ci_access_count item + 1 \<rparr>
                in (Some (ci_value item),
                    c\<lparr> cache := AList.delete k (cache c) @ [(k, item')],
                       stats := (stats c)\<lparr> hits := hits (stats c) + 1 \<rparr> \<rparr>)))"

subsection \<open>\<^verbatim>\<open>CacheEngine\<close>\<close>

record 'v CacheEngine =
  engine_cache :: "'v LRUCache"
  engine_running :: bool
  start_time :: "real option"

text \<open>
  The engine raises \<^verbatim>\<open>RuntimeError\<close> when it is not running and otherwise hands the call to
  its cache, whose result or exception is the engine's.
\<close>

definition CacheEngine_set ::
  "(key \<Rightarrow> error + nat) \<Rightarrow> ('v \<Rightarrow> error + nat) \<Rightarrow> 'v CacheEngine \<Rightarrow> real \<Rightarrow> key \<Rightarrow> 'v
     \<Rightarrow> real option \<Rightarrow> (error + bool) \<times> 'v CacheEngine" where
  "CacheEngine_set kenc venc e now k v t =
     (if \<not> engine_running e then (Inl RuntimeError, e)
      else (let r = LRUCache_set kenc venc (engine_cache e) now k v t
            in (fst r, e\<lparr> engine_cache := snd r \<rparr>)))"

definition CacheEngine_get ::
  "'v CacheEngine \<Rightarrow> real \<Rightarrow> key \<Rightarrow> error + ('v option \<times> 'v CacheEngine)" where
  "CacheEngine_get e now k =
     (if \<not> engine_running e then Inl RuntimeError
      else (let r = LRUCache_get (engine_cache e) now k
            in Inr (fst r, e\<lparr> engine_cache := snd r \<rparr>)))"

subsection \<open>Sequences of operations on the engine's cache\<close>

text \<open>
  A call of one of the four operations of \<^verbatim>\<open>LRUCache\<close> that change the cache, and a run of
  timestamped calls. A call that raises leaves the cache as it was when the exception
  left it, and the run goes on from there.
\<close>

datatype 'v lc_op = LGet key | LSet key 'v "real option" | LDelete key | LClear

fun lc_step ::
  "(key \<Rightarrow> error + nat) \<Rightarrow> ('v \<Rightarrow> error + nat) \<Rightarrow> 'v LRUCache \<Rightarrow> real \<Rightarrow> 'v lc_op \<Rightarrow> 'v LRUCache" where
  "lc_step kenc venc c now (LGet k) = snd (LRUCache_get c now k)"
| "lc_step kenc venc c now (LSet k v t) = snd (LRUCache_set kenc venc c now k v t)"
| "lc_step kenc venc c now (LDelete k) = snd (LRUCache_delete kenc venc c k)"
| "lc_step kenc venc c now LClear = snd (LRUCache_clear kenc venc c)"

fun lc_run ::
  "(key \<Rightarrow> error + nat) \<Rightarrow> ('v \<Rightarrow> error + nat) \<Rightarrow> 'v LRUCache \<Rightarrow> (real \<times> 'v lc_op) list
     \<Rightarrow> 'v LRUCache" where
  "lc_run kenc venc c [] = c"
| "lc_run kenc venc c (x # xs) = lc_run kenc venc (lc_step kenc venc c (fst x) (snd x)) xs"

subsection \<open>Accounting and capacity predicates\<close>

text \<open>
  The bytes of the stored entries, the agreement of the running total with them (with
  keys unique and sizes not negative), the two capacity bounds, and their conjunction
  with a configuration whose two maxima are not negative.
\<close>

definition stored_bytes :: "(key \<times> 'v StorageItem) list \<Rightarrow> int" where
  "stored_bytes st = sum_list (map (\<lambda>p. size_bytes (snd p)) st)"

definition accounting_ok :: "'v AdvancedStorage \<Rightarrow> bool" where
  "accounting_ok s \<longleftrightarrow>
     distinct (map fst (storage s))
   \<and> total_memory_bytes s = stored_bytes (storage s)
   \<and> list_all (\<lambda>p. 0 \<le> size_bytes (snd p)) (storage s)"

definition within_bounds :: "'v AdvancedStorage \<Rightarrow> bool" where
  "within_bounds s \<longleftrightarrow>
     int (length (storage s)) \<le> max_size s \<and> total_memory_bytes s \<le> max_memory_bytes s"

definition storage_inv :: "'v AdvancedStorage \<Rightarrow> bool" where
  "storage_inv s \<longleftrightarrow>
     accounting_ok s \<and> 0 \<le> max_size s \<and> 0 \<le> max_memory_bytes s \<and> within_bounds s"

text \<open>
  The number of entries a policy can still offer as victims (the length of the LRU order,
  of the LFU heap, of the TTL heap), and the condition that every key of the LRU order is
  a stored key.
\<close>

fun policy_size :: "policy \<Rightarrow> nat" where
  "policy_size (LRU ao) = length ao"
| "policy_size (LFU h f c) = length h"
| "policy_size (TTL h) = length h"

fun lru_keys :: "policy \<Rightarrow> key list" where
  "lru_keys (LRU ao) = ao"
| "lru_keys (LFU h f c) = []"
| "lru_keys (TTL h) = []"

definition victims_stored :: "'v AdvancedStorage \<Rightarrow> bool" where
  "victims_stored s \<longleftrightarrow> list_all (\<lambda>k. map_of (storage s) k \<noteq> None) (lru_keys (eviction_policy s))"

text \<open>
  An entry written at time \<open>created\<close> with TTL \<open>t\<close> has not expired at time \<open>now\<close>: the
  test of \<^verbatim>\<open>is_expired\<close> is false.
\<close>

definition fresh_at :: "real option \<Rightarrow> real \<Rightarrow> real \<Rightarrow> bool" where
  "fresh_at t created now \<longleftrightarrow>
     (case t of None \<Rightarrow> True | Some d \<Rightarrow> now \<le> fadd created d)"

subsection \<open>The LFU heap\<close>

text \<open>
  A heap entry is stale when its key is not tracked with the frequency the entry records.
  An LFU policy is well formed when its heap is in order and every tracked key has a heap
  entry recording its current frequency.
\<close>

definition stale :: "(key \<times> nat) list \<Rightarrow> nat \<times> nat \<times> key \<Rightarrow> bool" where
  "stale f e \<longleftrightarrow> map_of f (snd (snd e)) \<noteq> Some (fst e)"

fun lfu_wf :: "policy \<Rightarrow> bool" where
  "lfu_wf (LFU h f c) \<longleftrightarrow>
     sorted h
   \<and> list_all (\<lambda>k. case map_of f k of
                      None \<Rightarrow> True
                    | Some n \<Rightarrow> list_ex (\<lambda>e. fst e = n \<and> snd (snd e) = k) h) (map fst f)"
| "lfu_wf (LRU ao) \<longleftrightarrow> True"
| "lfu_wf (TTL h) \<longleftrightarrow> True"

subsection \<open>Example runs\<close>


text \<open>
  A storage of capacity 1 with the default LRU policy: \<^verbatim>\<open>set('a', 'x')\<close>, \<^verbatim>\<open>clear()\<close>,
  \<^verbatim>\<open>set('b', 'y')\<close>, and the states after the second and the third call.
\<close>

definition stale_calls :: "(real \<times> string op) list" where
  "stale_calls = [(0, Set ''a'' ''x'' None None), (1, Clear), (2, Set ''b'' ''y'' None None)]"

definition cleared_state :: "string AdvancedStorage" where
  "cleared_state =
     \<lparr> max_size = 1, max_memory_bytes = 1048576, storage = [], tag_index = [],
       eviction_policy = LRU [''a''], total_memory_bytes = 0, access_count = 0,
       hit_count = 0, miss_count = 0, eviction_count = 0 \<rparr>"

definition stale_state :: "string AdvancedStorage" where
  "stale_state =
     \<lparr> max_size = 1, max_memory_bytes = 1048576,
       storage = [(''b'', new_item length ''b'' ''y'' 2 None [])],
       tag_index = [], eviction_policy = LRU [''a'', ''b''],
       total_memory_bytes = 202, access_count = 0, hit_count = 0, miss_count = 0,
       eviction_count = 0 \<rparr>"

definition evict_calls :: "(real \<times> string op) list" where
  "evict_calls = [(0, Set ''a'' ''x'' None None), (1, Set ''b'' ''y'' None None)]"

text \<open>
  A storage of 1 MB holding one entry \<^verbatim>\<open>'a'\<close>, and a value whose rendering alone is 1 MB.
\<close>

definition one_entry_state :: "string AdvancedStorage" where
  "one_entry_state =
     \<lparr> max_size = 10, max_memory_bytes = 1048576,
       storage = [(''a'', new_item length ''a'' ''x'' 0 None [])],
       tag_index = [], eviction_policy = LRU [''a''],
       total_memory_bytes = 202, access_count = 0, hit_count = 0, miss_count = 0,
       eviction_count = 0 \<rparr>"

text \<open>
  A storage after \<^verbatim>\<open>set('k', 'v', ttl=3 / 2 ** 24)\<close> at time \<open>1700000000\<close>.
\<close>

definition short_ttl_state :: "string AdvancedStorage" where
  "short_ttl_state =
     \<lparr> max_size = 10, max_memory_bytes = 1048576,
       storage = [(''k'', new_item length ''k'' ''v'' 1700000000 (Some (3 / 2 ^ 24)) [])],
       tag_index = [], eviction_policy = LRU [''k''],
       total_memory_bytes = 202, access_count = 0, hit_count = 0, miss_count = 0,
       eviction_count = 0 \<rparr>"

definition big_value :: string where
  "big_value = replicate 1048576 CHR ''x''"

definition emptied_state :: "string AdvancedStorage" where
  "emptied_state =
     \<lparr> max_size = 10, max_memory_bytes = 1048576, storage = [], tag_index = [],
       eviction_policy = LRU [], total_memory_bytes = 0, access_count = 0, hit_count = 0,
       miss_count = 0, eviction_count = 1 \<rparr>"

text \<open>
  Encoders for the examples. A key given by its UTF-8 bytes encodes to as many bytes. A
  Python string given by its code points encodes to one to four bytes per code point,
  and \<^verbatim>\<open>encode('utf-8')\<close> raises \<^verbatim>\<open>UnicodeEncodeError\<close> when a code point is a surrogate
  (\<^verbatim>\<open>0xD800\<close> to \<^verbatim>\<open>0xDFFF\<close>); \<^verbatim>\<open>str\<close> of a string is the string.
\<close>

definition bytes_len :: "key \<Rightarrow> error + nat" where
  "bytes_len k = Inr (length k)"

definition utf8_units :: "nat \<Rightarrow> nat" where
  "utf8_units c = (if c < 128 then 1 else if c < 2048 then 2 else if c < 65536 then 3 else 4)"

definition utf8_len :: "nat list \<Rightarrow> error + nat" where
  "utf8_len s =
     (if list_ex (\<lambda>c. 55296 \<le> c \<and> c \<le> 57343) s then Inl UnicodeEncodeError
      else Inr (sum_list (map utf8_units s)))"

text \<open>
  An engine cache of capacity 5 after \<^verbatim>\<open>set('a', 'x')\<close>, its values strings given by their
  bytes, and one of capacity 1 after \<^verbatim>\<open>set('a', 'x')\<close>, which is full, its values strings
  given by their code points.
\<close>

definition one_entry_cache :: "string LRUCache" where
  "one_entry_cache = snd (LRUCache_set bytes_len bytes_len (lc_init 5) 0 ''a'' ''x'' None)"

definition full_cache :: "nat list LRUCache" where
  "full_cache = snd (LRUCache_set bytes_len utf8_len (lc_init 1) 0 ''a'' [120] None)"

text \<open>
  Calls on an engine cache of capacity 1: \<^verbatim>\<open>set('a', 'x')\<close>, \<^verbatim>\<open>set('b', 'y')\<close>, \<^verbatim>\<open>get('b')\<close>,
  \<^verbatim>\<open>set('c', '\ud800')\<close>, \<^verbatim>\<open>delete('b')\<close>, \<^verbatim>\<open>clear()\<close>.
\<close>

definition cache_calls :: "(real \<times> nat list lc_op) list" where
  "cache_calls =
     [(0, LSet ''a'' [120] None), (1, LSet ''b'' [121] None), (2, LGet ''b''),
      (3, LSet ''c'' [55296] None), (4, LDelete ''b''), (5, LClear)]"




section \<open>Properties\<close>

declare make_space.simps [code]

subsection \<open>The eviction loop\<close>

text \<open>
  Partial correctness of the loop of \<^verbatim>\<open>set\<close>: a property that holds on entry and that
  every round of eviction keeps holds on exit, and a normal exit leaves the loop condition
  false.
\<close>

lemma make_space_rule:
  assumes ms: "make_space s now sz = Some r"
      and init: "Q s"
      and stp: "\<And>u. Q u \<Longrightarrow> need_space u sz \<Longrightarrow> Q (snd (evict_one u now))"
  shows "Q (snd r) \<and> (fst r \<longrightarrow> \<not> need_space (snd r) sz)"
proof -
  have "n = now \<longrightarrow> z = sz \<longrightarrow> Q u \<longrightarrow> Q (snd r') \<and> (fst r' \<longrightarrow> \<not> need_space (snd r') sz)"
    if "make_space u n z = Some r'" for u n z r'
  proof (rule make_space.raw_induct
      [where P = "\<lambda>u n z r'. n = now \<longrightarrow> z = sz \<longrightarrow> Q u \<longrightarrow>
                    Q (snd r') \<and> (fst r' \<longrightarrow> \<not> need_space (snd r') sz)", OF _ that], goal_cases)
    case (1 f u n z r)
    show ?case
    proof (intro impI)
      assume e: "n = now" "z = sz" and q: "Q u"
      show "Q (snd r) \<and> (fst r \<longrightarrow> \<not> need_space (snd r) sz)"
      proof (cases "need_space u sz")
        case False
        with 1(2) e q show ?thesis by auto
      next
        case True
        note ns = this
        show ?thesis
        proof (cases "fst (evict_one u now)")
          case True
          with 1(2) e ns have "f (snd (evict_one u now)) now sz = Some r"
            by (simp add: Let_def)
          from 1(1)[OF this] stp[OF q ns] show ?thesis by simp
        next
          case False
          with 1(2) e ns have "r = (False, snd (evict_one u now))"
            by (simp add: Let_def)
          with stp[OF q ns] show ?thesis by simp
        qed
      qed
    qed
  qed
  with ms init show ?thesis by blast
qed

lemmas eval_defs = AS_set_def AS_get_def AS_delete_def AS_clear_def init_def new_item_def
  estimate_size_def make_space.simps need_space_def install_def remove_item_def evict_one_def
  is_expired_def add_tag_def untag_def get_stats_def lookups_def Let_def

subsection \<open>Rounding of double sums\<close>

text \<open>
  Rounding to nearest moves a real by at most half a unit in its last place, which is at
  most \<open>\<bar>x\<bar> / 2 ^ 53\<close>; it never moves a real below a double that is below it; and
  the sum of \<open>1700000000\<close> and \<open>3 / 2 ^ 24\<close>, three quarters of the way between two
  neighbouring doubles, is rounded up to the upper one.
\<close>
lemma binary_exponent_log: "0 < x \<Longrightarrow> binary_exponent x = \<lfloor>log 2 x\<rfloor>"
proof (induction x rule: binary_exponent.induct)
  case (1 x)
  consider "x < 1" | "2 \<le> x" | "1 \<le> x" "x < 2" by linarith
  then show ?case
  proof cases
    case 1
    with "1.prems" have "binary_exponent x = binary_exponent (2 * x) - 1"
      by (subst binary_exponent.simps) simp
    also from 1 "1.prems" "1.IH"(1) have "binary_exponent (2 * x) = \<lfloor>log 2 (2 * x)\<rfloor>"
      by simp
    also from "1.prems" have "log 2 (2 * x) = 1 + log 2 x" by (simp add: log_mult)
    finally show ?thesis by simp
  next
    case 2
    with "1.prems" have "binary_exponent x = binary_exponent (x / 2) + 1"
      by (subst binary_exponent.simps) simp
    also from 2 "1.prems" "1.IH"(2) have "binary_exponent (x / 2) = \<lfloor>log 2 (x / 2)\<rfloor>"
      by simp
    also from "1.prems" have "log 2 (x / 2) = log 2 x - 1" by (simp add: log_divide)
    finally show ?thesis by simp
  next
    case 3
    then have "binary_exponent x = 0" by (subst binary_exponent.simps) simp
    moreover from 3 have "\<lfloor>log 2 x\<rfloor> = 0"
      by (subst floor_log_eq_powr_iff) simp_all
    ultimately show ?thesis by simp
  qed
qed

lemma ulp_log: "x \<noteq> 0 \<Longrightarrow> ulp x = 2 powr (of_int \<lfloor>log 2 \<bar>x\<bar>\<rfloor> - 52)"
proof -
  assume "x \<noteq> 0"
  then have b: "binary_exponent \<bar>x\<bar> = \<lfloor>log 2 \<bar>x\<bar>\<rfloor>"
    by (intro binary_exponent_log) simp
  have "(2 :: real) powr real_of_int (\<lfloor>log 2 \<bar>x\<bar>\<rfloor> - 52) = 2 powi (\<lfloor>log 2 \<bar>x\<bar>\<rfloor> - 52)"
    by (rule powr_real_of_int') simp_all
  with b show ?thesis by (simp add: ulp_def)
qed

lemma rne_floor: "\<lfloor>y\<rfloor> \<le> rne y"
  by (simp add: rne_def Let_def)

lemma rne_error: "\<bar>of_int (rne y) - y\<bar> \<le> 1 / 2"
proof -
  have 1: "of_int \<lfloor>y\<rfloor> \<le> y" and 2: "y < of_int \<lfloor>y\<rfloor> + 1" by linarith+
  consider "y - of_int \<lfloor>y\<rfloor> < 1 / 2" | "1 / 2 < y - of_int \<lfloor>y\<rfloor>"
    | "y - of_int \<lfloor>y\<rfloor> = 1 / 2" by linarith
  then show ?thesis
  proof cases
    case 1
    then have "rne y = \<lfloor>y\<rfloor>" by (simp add: rne_def Let_def)
    with 1 \<open>of_int \<lfloor>y\<rfloor> \<le> y\<close> show ?thesis by simp
  next
    case 2
    then have "rne y = \<lfloor>y\<rfloor> + 1" by (simp add: rne_def Let_def)
    with 2 \<open>y < of_int \<lfloor>y\<rfloor> + 1\<close> show ?thesis by simp
  next
    case 3
    then have "rne y = \<lfloor>y\<rfloor> \<or> rne y = \<lfloor>y\<rfloor> + 1" by (simp add: rne_def Let_def)
    with 3 show ?thesis by auto
  qed
qed

lemma ulp_pos: "0 < ulp x"
  by (simp add: ulp_def)

lemma ulp_le: "x \<noteq> 0 \<Longrightarrow> ulp x \<le> \<bar>x\<bar> / 2 ^ 52"
proof -
  assume "x \<noteq> 0"
  then have p: "0 < \<bar>x\<bar>" by simp
  have "2 powr (of_int \<lfloor>log 2 \<bar>x\<bar>\<rfloor>) \<le> 2 powr (log 2 \<bar>x\<bar>)"
    by (intro powr_mono) auto
  also have "\<dots> = \<bar>x\<bar>" using p by simp
  finally have "2 powr (of_int \<lfloor>log 2 \<bar>x\<bar>\<rfloor>) \<le> \<bar>x\<bar>" .
  moreover have "ulp x = 2 powr (of_int \<lfloor>log 2 \<bar>x\<bar>\<rfloor>) / 2 ^ 52"
    using \<open>x \<noteq> 0\<close> by (simp add: ulp_log powr_diff)
  ultimately show ?thesis by (simp add: divide_right_mono)
qed

lemma double_round_error: "\<bar>double_round x - x\<bar> \<le> \<bar>x\<bar> / 2 ^ 53"
proof (cases "x = 0")
  case True
  then show ?thesis by (simp add: double_round_def)
next
  case False
  let ?u = "ulp x"
  have u: "0 < ?u" by (rule ulp_pos)
  have "double_round x - x = ?u * (of_int (rne (x / ?u)) - x / ?u)"
    using False u by (simp add: double_round_def algebra_simps)
  then have "\<bar>double_round x - x\<bar> = ?u * \<bar>of_int (rne (x / ?u)) - x / ?u\<bar>"
    using u by (simp add: abs_mult)
  also have "\<dots> \<le> ?u * (1 / 2)"
    using u rne_error [of "x / ?u"] by (intro mult_left_mono) auto
  also have "\<dots> \<le> (\<bar>x\<bar> / 2 ^ 52) * (1 / 2)"
    using ulp_le [OF False] by (intro mult_right_mono) auto
  finally show ?thesis by simp
qed

lemma ulp_eval: "0 < x \<Longrightarrow> 2 ^ 30 \<le> x \<Longrightarrow> x < 2 ^ 31 \<Longrightarrow> ulp x = 1 / 2 ^ 22"
proof -
  assume a: "0 < x" "2 ^ 30 \<le> x" "x < 2 ^ 31"
  have "\<lfloor>log 2 x\<rfloor> = 30"
    using a by (subst floor_log_eq_powr_iff) (auto simp: powr_realpow)
  with a show ?thesis by (simp add: ulp_log powr_minus_divide)
qed

lemma double_round_eval:
  assumes "x \<noteq> 0" and "ulp x = u" and "rne (x / u) = n"
  shows "double_round x = u * of_int n"
  using assms by (simp add: double_round_def)

lemma fadd_example: "fadd 1700000000 (3 / 2 ^ 24) = 1700000000 + 1 / 2 ^ 22"
proof -
  define x :: real where "x = 1700000000 + 3 / 2 ^ 24"
  have n: "x \<noteq> 0" by (simp add: x_def)
  have u: "ulp x = 1 / 2 ^ 22"
    by (rule ulp_eval) (simp_all add: x_def)
  have q: "x / (1 / 2 ^ 22) = 7130316800000000 + 3 / 4" by (simp add: x_def)
  have f: "\<lfloor>7130316800000000 + 3 / 4 :: real\<rfloor> = 7130316800000000"
    by (simp add: floor_eq_iff)
  have r: "rne (x / (1 / 2 ^ 22)) = 7130316800000001"
    unfolding q rne_def Let_def f by simp
  from double_round_eval [OF n u r] show ?thesis
    by (simp add: fadd_def x_def)
qed


lemma fadd_example_value: "fadd 1700000000 (3 / 16777216) = 1700000000 + 1 / 4194304"
  using fadd_example by simp

lemma ulp_expo: "x \<noteq> 0 \<Longrightarrow> ulp x = 2 powr (of_int (expo x) - 52)"
  by (simp add: ulp_log expo_def)

lemma expo_bounds:
  assumes "x \<noteq> 0"
  shows "2 powr (of_int (expo x)) \<le> \<bar>x\<bar>" and "\<bar>x\<bar> < 2 powr (of_int (expo x) + 1)"
proof -
  from assms have "0 < \<bar>x\<bar>" by simp
  from floor_log_eq_powr_iff [OF this, of 2 "expo x"]
  have "2 powr (of_int (expo x)) \<le> \<bar>x\<bar> \<and> \<bar>x\<bar> < 2 powr (of_int (expo x + 1))"
    by (simp add: expo_def)
  then show "2 powr (of_int (expo x)) \<le> \<bar>x\<bar>" and "\<bar>x\<bar> < 2 powr (of_int (expo x) + 1)"
    by simp_all
qed

lemma expo_mono: "a \<noteq> 0 \<Longrightarrow> \<bar>a\<bar> \<le> \<bar>x\<bar> \<Longrightarrow> expo a \<le> expo x"
  unfolding expo_def by (intro floor_mono) (simp add: log_le_cancel_iff)

lemma scaled_bounds:
  assumes "x \<noteq> 0"
  shows "2 ^ 52 \<le> \<bar>x\<bar> / ulp x" and "\<bar>x\<bar> / ulp x < 2 ^ 53"
proof -
  have u: "ulp x = 2 powr (of_int (expo x)) / 2 ^ 52"
    using assms by (simp add: ulp_expo powr_diff)
  have p: "0 < 2 powr (of_int (expo x) :: real)" by simp
  from expo_bounds(1) [OF assms] p show "2 ^ 52 \<le> \<bar>x\<bar> / ulp x"
    by (simp add: u field_simps)
  have "2 powr (of_int (expo x) + 1) = 2 * 2 powr (of_int (expo x) :: real)"
    by (simp add: powr_add)
  with expo_bounds(2) [OF assms] p show "\<bar>x\<bar> / ulp x < 2 ^ 53"
    by (simp add: u field_simps)
qed

lemma double_round_pos:
  assumes "0 < x"
  shows "2 powr (of_int (expo x)) \<le> double_round x"
proof -
  from assms scaled_bounds(1) [of x] have "2 ^ 52 \<le> x / ulp x" by simp
  then have "(2 ^ 52 :: int) \<le> \<lfloor>x / ulp x\<rfloor>" by (simp add: le_floor_iff)
  with rne_floor [of "x / ulp x"] have "(2 ^ 52 :: int) \<le> rne (x / ulp x)" by linarith
  then have "(2 ^ 52 :: real) \<le> of_int (rne (x / ulp x))"
    by (metis of_int_le_iff of_int_numeral of_int_power)
  then have "ulp x * 2 ^ 52 \<le> ulp x * of_int (rne (x / ulp x))"
    using ulp_pos [of x] by (intro mult_left_mono) auto
  moreover have "ulp x * 2 ^ 52 = 2 powr (of_int (expo x))"
    using assms by (simp add: ulp_expo powr_diff)
  ultimately show ?thesis using assms by (simp add: double_round_def)
qed

lemma double_round_neg:
  assumes "x < 0"
  shows "- (2 powr (of_int (expo x) + 1)) \<le> double_round x"
proof -
  from assms scaled_bounds(2) [of x] have "- (2 ^ 53) < x / ulp x"
    using ulp_pos [of x] by (simp add: abs_if field_simps split: if_splits)
  then have "- (2 ^ 53 :: int) \<le> \<lfloor>x / ulp x\<rfloor>" by (simp add: le_floor_iff)
  with rne_floor [of "x / ulp x"] have "- (2 ^ 53 :: int) \<le> rne (x / ulp x)" by linarith
  then have "- (2 ^ 53 :: real) \<le> of_int (rne (x / ulp x))"
    by (metis of_int_le_iff of_int_minus of_int_numeral of_int_power)
  then have "ulp x * (- (2 ^ 53)) \<le> ulp x * of_int (rne (x / ulp x))"
    using ulp_pos [of x] by (intro mult_left_mono) auto
  moreover have "ulp x * (- (2 ^ 53)) = - (2 powr (of_int (expo x) + 1))"
    using assms by (simp add: ulp_expo powr_diff powr_add)
  ultimately show ?thesis using assms by (simp add: double_round_def)
qed

lemma double_round_same_expo:
  assumes "is_double a" and "a \<noteq> 0" and "x \<noteq> 0" and "expo a = expo x" and "a \<le> x"
  shows "a \<le> double_round x"
proof -
  let ?u = "ulp x"
  have ua: "ulp a = ?u" using assms(2,3) by (simp add: ulp_expo assms(4))
  have u: "0 < ?u" by (rule ulp_pos)
  define n where "n = rne (a / ?u)"
  from assms(1,2) ua have a: "a = ?u * of_int n"
    by (simp add: is_double_def double_round_def n_def)
  with assms(5) u have "of_int n \<le> x / ?u" by (simp add: field_simps)
  then have "n \<le> \<lfloor>x / ?u\<rfloor>" by (simp add: le_floor_iff)
  with rne_floor [of "x / ?u"] have "n \<le> rne (x / ?u)" by linarith
  then have "?u * of_int n \<le> ?u * of_int (rne (x / ?u))"
    using u by (intro mult_left_mono) auto
  with a assms(3) show ?thesis by (simp add: double_round_def)
qed

lemma double_le_round:
  assumes d: "is_double a" and le: "a \<le> x"
  shows "a \<le> double_round x"
proof -
  consider "x = 0" | "0 < x" "a \<le> 0" | "0 < x" "0 < a" | "x < 0" by linarith
  then show ?thesis
  proof cases
    case 1
    with le show ?thesis by (simp add: double_round_def)
  next
    case 2
    have "0 < 2 powr (of_int (expo x) :: real)" by simp
    with double_round_pos [OF 2(1)] 2(2) show ?thesis by linarith
  next
    case 3
    then have "a \<noteq> 0" "x \<noteq> 0" "\<bar>a\<bar> \<le> \<bar>x\<bar>" using le by simp_all
    from expo_mono [OF this(1,3)] consider "expo a = expo x" | "expo a + 1 \<le> expo x" by linarith
    then show ?thesis
    proof cases
      case 1
      from double_round_same_expo [OF d \<open>a \<noteq> 0\<close> \<open>x \<noteq> 0\<close> 1 le] show ?thesis .
    next
      case 2
      from expo_bounds(2) [OF \<open>a \<noteq> 0\<close>] 3 have "a < 2 powr (of_int (expo a) + 1)" by simp
      also have "\<dots> \<le> 2 powr (of_int (expo x))"
        using 2 by (intro powr_mono) (auto simp: of_int_le_iff [symmetric] simp del: of_int_le_iff)
      also have "\<dots> \<le> double_round x" by (rule double_round_pos [OF 3(1)])
      finally show ?thesis by simp
    qed
  next
    case 4
    then have "a \<noteq> 0" "x \<noteq> 0" "\<bar>x\<bar> \<le> \<bar>a\<bar>" using le by simp_all
    from expo_mono [OF this(2,3)] consider "expo a = expo x" | "expo x + 1 \<le> expo a" by linarith
    then show ?thesis
    proof cases
      case 1
      from double_round_same_expo [OF d \<open>a \<noteq> 0\<close> \<open>x \<noteq> 0\<close> 1 le] show ?thesis .
    next
      case 2
      from expo_bounds(1) [OF \<open>a \<noteq> 0\<close>] 4 le have "a \<le> - (2 powr (of_int (expo a)))" by simp
      also have "\<dots> \<le> - (2 powr (of_int (expo x) + 1))"
        using 2 by (simp add: powr_mono of_int_le_iff [symmetric] del: of_int_le_iff)
      also have "\<dots> \<le> double_round x" by (rule double_round_neg [OF 4])
      finally show ?thesis .
    qed
  qed
qed


lemma ulp_binade:
  assumes "2 powr (of_int n) \<le> \<bar>x\<bar>" and "\<bar>x\<bar> < 2 powr (of_int n + 1)"
  shows "ulp x = 2 powr (of_int n - 52)"
proof -
  have "0 < 2 powr (of_int n :: real)" by simp
  with assms(1) have p: "0 < \<bar>x\<bar>" by linarith
  from assms have "\<lfloor>log 2 \<bar>x\<bar>\<rfloor> = n"
    by (subst floor_log_eq_powr_iff [OF p]) simp_all
  with p show ?thesis by (simp add: ulp_log)
qed

lemma is_double_multiple:
  assumes "x = 2 powr (of_int n - 52) * of_int m" and "2 ^ 52 \<le> \<bar>m\<bar>" and "\<bar>m\<bar> < 2 ^ 53"
  shows "is_double x"
proof -
  let ?u = "2 powr (of_int n - 52) :: real"
  have u: "0 < ?u" by simp
  have ax: "\<bar>x\<bar> = ?u * of_int \<bar>m\<bar>" by (simp add: assms(1) abs_mult)
  have "(2 ^ 52 :: real) \<le> of_int \<bar>m\<bar>" using assms(2)
    by (metis of_int_le_iff of_int_numeral of_int_power)
  then have "?u * 2 ^ 52 \<le> \<bar>x\<bar>" unfolding ax using u by (intro mult_left_mono) auto
  moreover have "?u * 2 ^ 52 = 2 powr (of_int n)" by (simp add: powr_diff)
  ultimately have lo: "2 powr (of_int n) \<le> \<bar>x\<bar>" by simp
  have "of_int \<bar>m\<bar> < (2 ^ 53 :: real)" using assms(3)
    by (metis of_int_less_iff of_int_numeral of_int_power)
  then have "\<bar>x\<bar> < ?u * 2 ^ 53" unfolding ax using u by (intro mult_strict_left_mono) auto
  moreover have "?u * 2 ^ 53 = 2 powr (of_int n + 1)" by (simp add: powr_diff powr_add)
  ultimately have hi: "\<bar>x\<bar> < 2 powr (of_int n + 1)" by simp
  from ulp_binade [OF lo hi] have ux: "ulp x = ?u" .
  from assms(2) have "m \<noteq> 0" by auto
  then have nz: "x \<noteq> 0" by (simp add: assms(1))
  have "x / ?u = of_int m" by (simp add: assms(1))
  then have "rne (x / ?u) = m" by (simp add: rne_def Let_def)
  with nz ux show ?thesis by (simp add: is_double_def double_round_def assms(1))
qed

lemma example_doubles:
  "is_double 1700000000" "is_double (3 / 2 ^ 24)" "is_double (1700000000 + 1 / 2 ^ 22)"
proof -
  show "is_double 1700000000"
    by (rule is_double_multiple [of _ 30 7130316800000000]) (simp_all add: powr_minus_divide)
  show "is_double (3 / 2 ^ 24)"
    by (rule is_double_multiple [of _ "- 23" 6755399441055744]) (simp_all add: powr_minus_divide)
  show "is_double (1700000000 + 1 / 2 ^ 22)"
    by (rule is_double_multiple [of _ 30 7130316800000001]) (simp_all add: powr_minus_divide)
qed

lemma fadd_error: "\<bar>fadd a b - (a + b)\<bar> \<le> \<bar>a + b\<bar> / 2 ^ 53"
  unfolding fadd_def by (rule double_round_error)

lemma fadd_lower: "is_double a \<Longrightarrow> a \<le> b + c \<Longrightarrow> a \<le> fadd b c"
  unfolding fadd_def by (rule double_le_round)

lemma fresh_exact: "is_double now' \<Longrightarrow> now' \<le> created + d \<Longrightarrow> fresh_at (Some d) created now'"
  by (simp add: fresh_at_def fadd_lower)

subsection \<open>Lazy expiry on read\<close>

lemma short_ttl_run:
  "AS_set length (init 10 1 (LRU [])) 1700000000 ''k'' ''v'' (Some (3 / 2 ^ 24)) None =
     Some (True, short_ttl_state)"
  by (simp add: eval_defs short_ttl_state_def)

text \<open>
  Claim C1 as stated fails for a margin \<open>e\<close> below the rounding of the sum. After
  \<^verbatim>\<open>set('k', 'v', ttl=3 / 2 ** 24)\<close> at time \<open>t = 1700000000\<close>, the call \<^verbatim>\<open>get('k')\<close> at time
  \<open>t + 1 / 2 ^ 22\<close>, which is \<open>t + ttl + e\<close> for \<open>e = 1 / 2 ^ 24\<close>, returns the value and
  counts a hit, and the entry stays stored: the sum \<^verbatim>\<open>created_at + ttl\<close> is rounded up to
  the time of the call. The three times are doubles.
\<close>

theorem get_within_rounding_counterexample:
  "is_double 1700000000 \<and> is_double (3 / 2 ^ 24) \<and> is_double (1700000000 + 1 / 2 ^ 22)
   \<and> AS_set length (init 10 1 (LRU [])) 1700000000 ''k'' ''v'' (Some (3 / 2 ^ 24)) None =
       Some (True, short_ttl_state)
   \<and> (0 :: real) < 1 / 2 ^ 24
   \<and> (1700000000 :: real) + 3 / 2 ^ 24 + 1 / 2 ^ 24 \<le> 1700000000 + 1 / 2 ^ 22
   \<and> (\<exists>s'. AS_get short_ttl_state (1700000000 + 1 / 2 ^ 22) ''k'' = Inr (Some ''v'', s')
          \<and> map_of (storage s') ''k'' \<noteq> None
          \<and> hit_count s' = 1 \<and> miss_count s' = 0)"
proof -
  have "\<exists>s'. AS_get short_ttl_state (1700000000 + 1 / 2 ^ 22) ''k'' = Inr (Some ''v'', s')
          \<and> map_of (storage s') ''k'' \<noteq> None
          \<and> hit_count s' = 1 \<and> miss_count s' = 0"
    by (simp add: AS_get_def short_ttl_state_def new_item_def is_expired_def
        fadd_example_value Let_def)
  with example_doubles short_ttl_run show ?thesis by simp
qed

text \<open>
  Claim C1, amended. An entry of key \<open>k\<close> stored at time \<open>t\<close> with TTL \<open>d\<close> is the stored
  item with \<^verbatim>\<open>created_at = t\<close> and \<^verbatim>\<open>ttl = d\<close>. A \<^verbatim>\<open>get(k)\<close> at a time \<open>now\<close> after the double
  sum of \<open>t\<close> and \<open>d\<close>, and so at any time \<open>now \<ge> t + d + e\<close> with \<open>e > 0\<close> and
  \<open>e > \<bar>t + d\<bar> / 2 ^ 53\<close>, returns a miss (\<open>None\<close>), never the value, counts as a miss
  and not as a hit, and the key is not in storage afterwards. This is so whether the
  entry is still stored when \<^verbatim>\<open>get\<close> is called or has been removed before: \<^verbatim>\<open>get\<close> itself
  removes it.
\<close>

theorem get_after_expiry_misses:
  assumes "map_of (storage s) k = None
         \<or> (\<exists>item. map_of (storage s) k = Some item \<and> ttl item = Some d \<and> created_at item = t)"
      and "fadd t d < now \<or> (0 < e \<and> \<bar>t + d\<bar> / 2 ^ 53 < e \<and> t + d + e \<le> now)"
  shows "\<exists>s'. AS_get s now k = Inr (None, s') \<and> map_of (storage s') k = None
             \<and> miss_count s' = miss_count s + 1 \<and> hit_count s' = hit_count s"
proof -
  from fadd_error [of t d] have "fadd t d \<le> t + d + \<bar>t + d\<bar> / 2 ^ 53" by linarith
  with assms(2) have "fadd t d < now" by linarith
  with assms(1) show ?thesis
    by (auto simp: AS_get_def is_expired_def remove_item_def Let_def AList.delete_conv)
qed

theorem get_after_expiry_misses_witness:
  "(\<exists>s'. AS_get short_ttl_state (1700000000 + 1 / 2 ^ 21) ''k'' = Inr (None, s')
        \<and> map_of (storage s') ''k'' = None \<and> miss_count s' = 1 \<and> hit_count s' = 0)
   \<and> (\<exists>s'. AS_get short_ttl_state 1700000001 ''k'' = Inr (None, s')
        \<and> map_of (storage s') ''k'' = None \<and> miss_count s' = 1 \<and> hit_count s' = 0)"
  using get_after_expiry_misses [of short_ttl_state "''k''" "3 / 2 ^ 24" 1700000000
      "1700000000 + 1 / 2 ^ 21" 0]
    get_after_expiry_misses [of short_ttl_state "''k''" "3 / 2 ^ 24" 1700000000 1700000001 "1 / 2"]
  by (simp add: short_ttl_state_def new_item_def fadd_example_value)

subsection \<open>Hit and miss accounting\<close>

lemma remove_item_frame:
  "max_size (remove_item s k) = max_size s"
  "max_memory_bytes (remove_item s k) = max_memory_bytes s"
  "access_count (remove_item s k) = access_count s"
  "hit_count (remove_item s k) = hit_count s"
  "miss_count (remove_item s k) = miss_count s"
  "eviction_count (remove_item s k) = eviction_count s"
  by (simp_all add: remove_item_def split: option.split)









subsection \<open>Inserts into the engine's cache\<close>

lemma map_of_move_to_end: "map_of (AList.delete k c @ [(k, x)]) k = Some x"
  by (simp add: map_of_append AList.delete_conv map_add_def)

lemma cache_bytes_member:
  assumes "cache_bytes kenc venc xs = Inr n" and "(k, item) \<in> set xs"
      and "venc (ci_value item) = Inr m"
  shows "int m \<le> n"
  using assms
proof (induction xs arbitrary: n)
  case Nil
  then show ?case by simp
next
  case (Cons p ps)
  obtain k' item' where p: "p = (k', item')" by (cases p)
  from Cons.prems(1) p obtain a b r where
    a: "kenc k' = Inr a" and b: "venc (ci_value item') = Inr b"
    and r: "cache_bytes kenc venc ps = Inr r" and n: "n = int a + int b + 100 + r"
    by (auto split: sum.splits)
  have r0: "0 \<le> r" if "cache_bytes kenc venc ys = Inr r" for ys r
    using that by (induction ys arbitrary: r) (auto split: sum.splits)
  show ?case
  proof (cases "(k, item) = p")
    case True
    with p b Cons.prems(3) n r0 [OF r] show ?thesis by simp
  next
    case False
    with Cons.prems(2) have "(k, item) \<in> set ps" by simp
    from Cons.IH [OF r this Cons.prems(3)] n show ?thesis by simp
  qed
qed

text \<open>
  What the recomputation of the byte total at the end of an operation leaves alone, and
  what it returns.
\<close>

lemma recompute_frame:
  "cache (snd (case update_memory_usage kenc venc c of
                 Inl e \<Rightarrow> (Inl e, c) | Inr c3 \<Rightarrow> (res, c3))) = cache c"
  "lc_max_size (snd (case update_memory_usage kenc venc c of
                 Inl e \<Rightarrow> (Inl e, c) | Inr c3 \<Rightarrow> (res, c3))) = lc_max_size c"
  "sets (stats (snd (case update_memory_usage kenc venc c of
                 Inl e \<Rightarrow> (Inl e, c) | Inr c3 \<Rightarrow> (res, c3)))) = sets (stats c)"
  "evictions (stats (snd (case update_memory_usage kenc venc c of
                 Inl e \<Rightarrow> (Inl e, c) | Inr c3 \<Rightarrow> (res, c3)))) = evictions (stats c)"
  "current_size (stats (snd (case update_memory_usage kenc venc c of
                 Inl e \<Rightarrow> (Inl e, c) | Inr c3 \<Rightarrow> (res, c3)))) = current_size (stats c)"
  by (simp_all add: update_memory_usage_def split: sum.splits)

lemma recompute_result:
  "fst (case update_memory_usage kenc venc c of
          Inl e \<Rightarrow> (Inl e, c) | Inr c3 \<Rightarrow> (res, c3)) =
     (case cache_bytes kenc venc (cache c) of Inl e \<Rightarrow> Inl e | Inr n \<Rightarrow> res)"
  by (simp add: update_memory_usage_def split: sum.splits)

lemma recompute_memory:
  "fst (case update_memory_usage kenc venc c of
          Inl e \<Rightarrow> (Inl e, c) | Inr c3 \<Rightarrow> (Inr b, c3)) = Inr b' \<Longrightarrow>
   cache_bytes kenc venc (cache c) =
     Inr (memory_usage_bytes (stats (snd (case update_memory_usage kenc venc c of
                                            Inl e \<Rightarrow> (Inl e, c) | Inr c3 \<Rightarrow> (Inr b, c3)))))"
  by (simp add: update_memory_usage_def split: sum.splits)

lemma lru_set_cache:
  "cache (snd (LRUCache_set kenc venc c now k v t)) =
     (let item = \<lparr> ci_value = v, ci_created_at = now, ci_ttl = t, ci_access_count = 0,
                   ci_last_accessed = now \<rparr>
      in if map_of (cache c) k \<noteq> None then AList.delete k (cache c) @ [(k, item)]
         else AList.update k item
                (cache (if lc_max_size c \<le> int (length (cache c)) then evict_lru c else c)))"
  by (simp add: LRUCache_set_def Let_def recompute_frame)

lemma lru_set_stats:
  "sets (stats (snd (LRUCache_set kenc venc c now k v t))) = sets (stats c) + 1"
  "evictions (stats (snd (LRUCache_set kenc venc c now k v t))) =
       evictions (stats (if map_of (cache c) k = None \<and> lc_max_size c \<le> int (length (cache c))
                         then evict_lru c else c))"
  "lc_max_size (snd (LRUCache_set kenc venc c now k v t)) = lc_max_size c"
  by (simp_all add: LRUCache_set_def Let_def recompute_frame evict_lru_def split: list.splits)

lemma lru_set_result:
  "fst (LRUCache_set kenc venc c now k v t) =
     (case cache_bytes kenc venc (cache (snd (LRUCache_set kenc venc c now k v t))) of
        Inl e \<Rightarrow> Inl e
      | Inr n \<Rightarrow> Inr True)"
  unfolding LRUCache_set_def Let_def recompute_frame recompute_result ..

lemma lru_set_memory:
  "fst (LRUCache_set kenc venc c now k v t) = Inr True \<Longrightarrow>
     cache_bytes kenc venc (cache (snd (LRUCache_set kenc venc c now k v t))) =
       Inr (memory_usage_bytes (stats (snd (LRUCache_set kenc venc c now k v t))))"
proof -
  assume a: "fst (LRUCache_set kenc venc c now k v t) = Inr True"
  have "\<exists>c2. LRUCache_set kenc venc c now k v t =
      (case update_memory_usage kenc venc c2 of
         Inl e \<Rightarrow> (Inl e, c2) | Inr c3 \<Rightarrow> (Inr True, c3))"
    unfolding LRUCache_set_def Let_def by (rule exI) (rule refl)
  then obtain c2 where r: "LRUCache_set kenc venc c now k v t =
      (case update_memory_usage kenc venc c2 of
         Inl e \<Rightarrow> (Inl e, c2) | Inr c3 \<Rightarrow> (Inr True, c3))" ..
  from a recompute_memory [where kenc = kenc and venc = venc and c = c2 and b = True and b' = True] show ?thesis
    unfolding r by (simp only: recompute_frame)
qed

lemma lru_set_stores:
  "map_of (cache (snd (LRUCache_set kenc venc c now k v t))) k =
     Some \<lparr> ci_value = v, ci_created_at = now, ci_ttl = t, ci_access_count = 0,
            ci_last_accessed = now \<rparr>"
  by (simp add: lru_set_cache Let_def evict_lru_def
      AList.delete_conv map_add_def AList.update_conv' map_of_move_to_end split: list.split)

text \<open>
  Claim C10 as stated fails: \<^verbatim>\<open>set('k', '\ud800')\<close> on a fresh cache does not return
  \<^verbatim>\<open>True\<close>. The value, a string of one lone surrogate, is stored and the call counted, and
  then \<^verbatim>\<open>_update_memory_usage\<close> raises \<^verbatim>\<open>UnicodeEncodeError\<close> while it encodes the value;
  \<^verbatim>\<open>CacheEngine.set\<close> on a running engine raises the same.
\<close>

theorem LRUCache_set_raises_counterexample:
  "fst (LRUCache_set bytes_len utf8_len (lc_init 5) 0 ''k'' [55296] None) =
     Inl UnicodeEncodeError
   \<and> map_of (cache (snd (LRUCache_set bytes_len utf8_len (lc_init 5) 0 ''k'' [55296] None))) ''k'' =
       Some \<lparr> ci_value = [55296], ci_created_at = 0, ci_ttl = None, ci_access_count = 0,
              ci_last_accessed = 0 \<rparr>
   \<and> sets (stats (snd (LRUCache_set bytes_len utf8_len (lc_init 5) 0 ''k'' [55296] None))) = 1
   \<and> fst (CacheEngine_set bytes_len utf8_len
            \<lparr> engine_cache = lc_init 5, engine_running = True, start_time = Some 0 \<rparr>
            0 ''k'' [55296] None) = Inl UnicodeEncodeError"
  by (simp add: CacheEngine_set_def LRUCache_set_def update_memory_usage_def lc_init_def
      bytes_len_def utf8_len_def Let_def)

text \<open>
  Claim C10, amended. \<^verbatim>\<open>LRUCache.set\<close> never returns \<^verbatim>\<open>False\<close>: for every key, value and
  TTL the entry is stored and the call counted, and the call then returns \<^verbatim>\<open>True\<close> exactly
  when the byte total of the cache can be recomputed, and otherwise raises the exception
  of the encoding that failed. Only the number of entries is bounded: a new key on a
  cache that is not empty and holds \<^verbatim>\<open>max_size\<close> entries or more makes the first key of the
  cache, the least recently used one, leave it, which counts as one eviction, and the new
  entry is added to what remains; a new key on a cache of fewer entries is added with no
  eviction, and a stored key is moved to the end with its new entry, with no eviction. No
  bound on bytes is enforced: after a call that returned, \<^verbatim>\<open>memory_usage_bytes\<close> is at
  least the size of the value just stored, however large. \<^verbatim>\<open>CacheEngine.set\<close> on a running
  engine does what \<^verbatim>\<open>LRUCache.set\<close> does on its cache.
\<close>

theorem LRUCache_set_never_refuses:
  "(let r = LRUCache_set kenc venc c now k v t;
        item = \<lparr> ci_value = v, ci_created_at = now, ci_ttl = t, ci_access_count = 0,
                 ci_last_accessed = now \<rparr>
    in fst r \<noteq> Inr False
     \<and> map_of (cache (snd r)) k = Some item
     \<and> sets (stats (snd r)) = sets (stats c) + 1
     \<and> (fst r = Inr True \<longleftrightarrow> (\<exists>n. cache_bytes kenc venc (cache (snd r)) = Inr n))
     \<and> (fst r = Inl err \<longleftrightarrow> cache_bytes kenc venc (cache (snd r)) = Inl err)
     \<and> (map_of (cache c) k = None \<and> cache c = (k0, x0) # rest
          \<and> lc_max_size c \<le> int (length (cache c)) \<longrightarrow>
        cache (snd r) = AList.update k item (AList.delete k0 (cache c))
        \<and> map_of (cache (snd r)) k0 = None
        \<and> evictions (stats (snd r)) = evictions (stats c) + 1)
     \<and> (map_of (cache c) k = None \<and> int (length (cache c)) < lc_max_size c \<longrightarrow>
        cache (snd r) = AList.update k item (cache c)
        \<and> evictions (stats (snd r)) = evictions (stats c))
     \<and> (map_of (cache c) k \<noteq> None \<longrightarrow>
        cache (snd r) = AList.delete k (cache c) @ [(k, item)]
        \<and> evictions (stats (snd r)) = evictions (stats c))
     \<and> (fst r = Inr True \<and> venc v = Inr n \<longrightarrow> int n \<le> memory_usage_bytes (stats (snd r)))
     \<and> CacheEngine_set kenc venc (e\<lparr> engine_running := True \<rparr>) now k v t =
         (fst (LRUCache_set kenc venc (engine_cache e) now k v t),
          e\<lparr> engine_running := True,
             engine_cache := snd (LRUCache_set kenc venc (engine_cache e) now k v t) \<rparr>))"
proof -
  let ?r = "LRUCache_set kenc venc c now k v t"
  let ?item = "\<lparr> ci_value = v, ci_created_at = now, ci_ttl = t, ci_access_count = 0,
                 ci_last_accessed = now \<rparr>"
  have 1: "fst ?r \<noteq> Inr False"
    by (simp add: lru_set_result split: sum.splits)
  have 2: "map_of (cache (snd ?r)) k = Some ?item" by (rule lru_set_stores)
  have 3: "sets (stats (snd ?r)) = sets (stats c) + 1" by (simp add: lru_set_stats)
  have 4: "fst ?r = Inr True \<longleftrightarrow> (\<exists>n. cache_bytes kenc venc (cache (snd ?r)) = Inr n)"
    by (subst lru_set_result) (simp split: sum.splits)
  have 5: "fst ?r = Inl err \<longleftrightarrow> cache_bytes kenc venc (cache (snd ?r)) = Inl err"
    by (subst lru_set_result) (simp split: sum.splits)
  have 6: "cache (snd ?r) = AList.update k ?item (AList.delete k0 (cache c))
        \<and> map_of (cache (snd ?r)) k0 = None
        \<and> evictions (stats (snd ?r)) = evictions (stats c) + 1"
    if a: "map_of (cache c) k = None" "cache c = (k0, x0) # rest"
      "lc_max_size c \<le> int (length (cache c))"
  proof -
    from a(1,2) have ne: "k0 \<noteq> k" by auto
    from a have c: "cache (snd ?r) = AList.update k ?item (AList.delete k0 (cache c))"
      by (simp add: lru_set_cache Let_def evict_lru_def)
    from a have "evictions (stats (snd ?r)) = evictions (stats c) + 1"
      by (simp add: lru_set_stats evict_lru_def)
    moreover from ne have "map_of (cache (snd ?r)) k0 = None"
      unfolding c by (simp add: AList.update_conv' AList.delete_conv)
    ultimately show ?thesis using c by simp
  qed
  have 7: "cache (snd ?r) = AList.update k ?item (cache c)
        \<and> evictions (stats (snd ?r)) = evictions (stats c)"
    if "map_of (cache c) k = None" "int (length (cache c)) < lc_max_size c"
    using that by (simp add: lru_set_cache lru_set_stats Let_def)
  have 8: "cache (snd ?r) = AList.delete k (cache c) @ [(k, ?item)]
        \<and> evictions (stats (snd ?r)) = evictions (stats c)"
    if "map_of (cache c) k \<noteq> None"
    using that by (auto simp: lru_set_cache lru_set_stats Let_def)
  have 9: "int n \<le> memory_usage_bytes (stats (snd ?r))"
    if a: "fst ?r = Inr True" "venc v = Inr n"
  proof -
    from 2 have "(k, ?item) \<in> set (cache (snd ?r))" by (rule map_of_SomeD)
    from cache_bytes_member [OF lru_set_memory [OF a(1)] this] a(2) show ?thesis by simp
  qed
  have 10: "CacheEngine_set kenc venc (e\<lparr> engine_running := True \<rparr>) now k v t =
         (fst (LRUCache_set kenc venc (engine_cache e) now k v t),
          e\<lparr> engine_running := True,
             engine_cache := snd (LRUCache_set kenc venc (engine_cache e) now k v t) \<rparr>)"
    by (simp add: CacheEngine_set_def Let_def)
  from 1 2 3 4 5 6 7 8 9 10 show ?thesis unfolding Let_def by blast
qed

lemma full_cache_built:
  "cache full_cache =
     [(''a'', \<lparr> ci_value = [120], ci_created_at = 0, ci_ttl = None, ci_access_count = 0,
               ci_last_accessed = 0 \<rparr>)]"
  "lc_max_size full_cache = 1" "evictions (stats full_cache) = 0"
  by (simp_all add: full_cache_def LRUCache_set_def update_memory_usage_def lc_init_def
      bytes_len_def utf8_len_def utf8_units_def Let_def)

theorem LRUCache_set_never_refuses_witness:
  "fst (LRUCache_set bytes_len utf8_len full_cache 1 ''b'' [121, 121] None) = Inr True
   \<and> cache (snd (LRUCache_set bytes_len utf8_len full_cache 1 ''b'' [121, 121] None)) =
       [(''b'', \<lparr> ci_value = [121, 121], ci_created_at = 1, ci_ttl = None, ci_access_count = 0,
                 ci_last_accessed = 1 \<rparr>)]
   \<and> map_of (cache (snd (LRUCache_set bytes_len utf8_len full_cache 1 ''b'' [121, 121] None))) ''a''
       = None
   \<and> evictions (stats (snd (LRUCache_set bytes_len utf8_len full_cache 1 ''b'' [121, 121] None))) = 1
   \<and> 2 \<le> memory_usage_bytes
            (stats (snd (LRUCache_set bytes_len utf8_len full_cache 1 ''b'' [121, 121] None)))
   \<and> cache (snd (LRUCache_set bytes_len utf8_len full_cache 1 ''a'' [122] None)) =
       [(''a'', \<lparr> ci_value = [122], ci_created_at = 1, ci_ttl = None, ci_access_count = 0,
                 ci_last_accessed = 1 \<rparr>)]
   \<and> evictions (stats (snd (LRUCache_set bytes_len utf8_len full_cache 1 ''a'' [122] None))) = 0
   \<and> cache (snd (LRUCache_set bytes_len utf8_len (lc_init 5) 1 ''a'' [122] None)) =
       [(''a'', \<lparr> ci_value = [122], ci_created_at = 1, ci_ttl = None, ci_access_count = 0,
                 ci_last_accessed = 1 \<rparr>)]
   \<and> evictions (stats (snd (LRUCache_set bytes_len utf8_len (lc_init 5) 1 ''a'' [122] None))) = 0"
proof -
  let ?r = "LRUCache_set bytes_len utf8_len full_cache 1 ''b'' [121, 121] None"
  let ?item = "\<lparr> ci_value = [121, 121], ci_created_at = 1, ci_ttl = None, ci_access_count = 0,
                 ci_last_accessed = 1 \<rparr> :: nat list CacheItem"
  let ?old = "\<lparr> ci_value = [120], ci_created_at = 0, ci_ttl = None, ci_access_count = 0,
                 ci_last_accessed = 0 \<rparr> :: nat list CacheItem"
  note t = LRUCache_set_never_refuses [of bytes_len utf8_len full_cache 1 "''b''" "[121, 121]" None
      _ "''a''" ?old "[]" 2, unfolded Let_def]
  have h: "map_of (cache full_cache) ''b'' = None \<and> cache full_cache = (''a'', ?old) # []
        \<and> lc_max_size full_cache \<le> int (length (cache full_cache))"
    by (simp add: full_cache_built)
  from t h have c: "cache (snd ?r) = [(''b'', ?item)]" and a: "map_of (cache (snd ?r)) ''a'' = None"
    and ev: "evictions (stats (snd ?r)) = 1"
    by (simp_all add: full_cache_built)
  have "cache_bytes bytes_len utf8_len (cache (snd ?r)) = Inr 103"
    unfolding c by (simp add: bytes_len_def utf8_len_def utf8_units_def)
  with t have tr: "fst ?r = Inr True" by simp
  have "utf8_len [121, 121] = Inr 2" by (simp add: utf8_len_def utf8_units_def)
  with t tr have m: "2 \<le> memory_usage_bytes (stats (snd ?r))" by simp
  from LRUCache_set_never_refuses [of bytes_len utf8_len full_cache 1 "''a''" "[122]" None,
      unfolded Let_def]
  have r: "cache (snd (LRUCache_set bytes_len utf8_len full_cache 1 ''a'' [122] None)) =
       [(''a'', \<lparr> ci_value = [122], ci_created_at = 1, ci_ttl = None, ci_access_count = 0,
                 ci_last_accessed = 1 \<rparr>)]"
    "evictions (stats (snd (LRUCache_set bytes_len utf8_len full_cache 1 ''a'' [122] None))) = 0"
    by (simp_all add: full_cache_built)
  from LRUCache_set_never_refuses [of bytes_len utf8_len "lc_init 5" 1 "''a''" "[122]" None,
      unfolded Let_def]
  have n: "cache (snd (LRUCache_set bytes_len utf8_len (lc_init 5) 1 ''a'' [122] None)) =
       [(''a'', \<lparr> ci_value = [122], ci_created_at = 1, ci_ttl = None, ci_access_count = 0,
                 ci_last_accessed = 1 \<rparr>)]"
    "evictions (stats (snd (LRUCache_set bytes_len utf8_len (lc_init 5) 1 ''a'' [122] None))) = 0"
    by (simp_all add: lc_init_def)
  from c a ev tr m r n show ?thesis by simp
qed

subsection \<open>The policy after \<^verbatim>\<open>clear\<close>\<close>

text \<open>
  A loop that always needs space and whose every round reports an eviction never exits.
\<close>

lemma make_space_diverges:
  assumes init: "Q s"
      and stp: "\<And>u. Q u \<Longrightarrow> need_space u sz \<and> fst (evict_one u now) \<and> Q (snd (evict_one u now))"
  shows "make_space s now sz = None"
proof (rule ccontr)
  assume "make_space s now sz \<noteq> None"
  then obtain r where ms: "make_space s now sz = Some r" by blast
  have "n = now \<longrightarrow> z = sz \<longrightarrow> \<not> Q u" if "make_space u n z = Some r'" for u n z r'
  proof (rule make_space.raw_induct
      [where P = "\<lambda>u n z r'. n = now \<longrightarrow> z = sz \<longrightarrow> \<not> Q u", OF _ that], goal_cases)
    case (1 f u n z r)
    show ?case
    proof (intro impI notI)
      assume e: "n = now" "z = sz" and q: "Q u"
      from stp[OF q] 1(2) e have "f (snd (evict_one u now)) now sz = Some r"
        by (simp add: Let_def)
      from 1(1)[OF this] stp[OF q] show False by simp
    qed
  qed
  with ms init show False by blast
qed

lemma stale_run: "run length (init 1 1 (LRU [])) stale_calls = Some stale_state"
  by (simp add: stale_calls_def stale_state_def eval_defs)

lemma cleared_run:
  "run length (init 1 1 (LRU [])) (take 2 stale_calls) = Some cleared_state"
  by (simp add: stale_calls_def cleared_state_def eval_defs)

lemma stale_set_diverges: "AS_set length stale_state 3 ''c'' ''z'' None None = None"
proof -
  let ?Q = "\<lambda>u :: string AdvancedStorage. storage u = storage stale_state
                \<and> eviction_policy u = LRU [''a'', ''b''] \<and> max_size u = 1"
  have "make_space stale_state 3 (size_bytes (new_item length ''c'' ''z'' 3 None [])) = None"
  proof (rule make_space_diverges [where Q = ?Q])
    show "?Q stale_state" by (simp add: stale_state_def)
  next
    fix u assume "?Q u"
    then show "need_space u (size_bytes (new_item length ''c'' ''z'' 3 None []))
        \<and> fst (evict_one u 3) \<and> ?Q (snd (evict_one u 3))"
      by (simp add: stale_state_def need_space_def evict_one_def remove_item_def Let_def)
  qed
  then show ?thesis
    by (simp add: AS_set_def Let_def stale_state_def)
qed

text \<open>
  Claim C7, at a failing input. \<^verbatim>\<open>clear\<close> empties the storage and leaves the policy as it
  was: after \<^verbatim>\<open>set('a', 'x'); clear()\<close> on a storage of capacity 1 the LRU order still holds
  \<^verbatim>\<open>'a'\<close>, and \<^verbatim>\<open>select_victim\<close> names \<^verbatim>\<open>'a'\<close>, which is not in storage. After a further
  \<^verbatim>\<open>set('b', 'y')\<close>, the call \<^verbatim>\<open>set('c', 'z')\<close> never returns: each round of its loop is
  given the absent \<^verbatim>\<open>'a'\<close>, removes nothing and asks again.
\<close>

theorem clear_leaves_policy_stale:
  "run length (init 1 1 (LRU [])) (take 2 stale_calls) = Some cleared_state
   \<and> storage cleared_state = []
   \<and> eviction_policy cleared_state = LRU [''a'']
   \<and> fst (select_victim (eviction_policy cleared_state) (storage cleared_state) 2) = Some ''a''
   \<and> run length (init 1 1 (LRU [])) stale_calls = Some stale_state
   \<and> AS_set length stale_state 3 ''c'' ''z'' None None = None"
  by (simp add: cleared_run stale_run stale_set_diverges) (simp add: cleared_state_def)

text \<open>
  Claim C8, at a failing input. In the state after \<^verbatim>\<open>set('a', 'x'); clear(); set('b', 'y')\<close>
  the policy names \<^verbatim>\<open>'a'\<close>, which is not in storage. \<^verbatim>\<open>_evict_one\<close> reports success and
  increments \<^verbatim>\<open>eviction_count\<close>, and the storage is what it was: nothing was removed.
\<close>

theorem evict_counts_absent_victim:
  "run length (init 1 1 (LRU [])) stale_calls = Some stale_state
   \<and> map_of (storage stale_state) ''a'' = None
   \<and> fst (select_victim (eviction_policy stale_state) (storage stale_state) 3) = Some ''a''
   \<and> fst (evict_one stale_state 3) = True
   \<and> eviction_count (snd (evict_one stale_state 3)) = eviction_count stale_state + 1
   \<and> storage (snd (evict_one stale_state 3)) = storage stale_state"
  by (simp add: stale_run) (simp add: stale_state_def eval_defs)

subsection \<open>Arguments of \<^verbatim>\<open>set\<close> and missing keys\<close>

lemma make_space_exit: "\<not> need_space s sz \<Longrightarrow> make_space s now sz = Some (True, s)"
  by (subst make_space.simps) simp
lemma AS_set_no_eviction:
  assumes "\<not> need_space (if map_of (storage s) k \<noteq> None then remove_item s k else s)
             (estimate_size vsz k v)"
  shows "AS_set vsz s now k v t tgs =
           Some (True, install (if map_of (storage s) k \<noteq> None then remove_item s k else s) k
                         (new_item vsz k v now t (case tgs of None \<Rightarrow> [] | Some ts \<Rightarrow> ts)))"
  using assms by (simp add: AS_set_def Let_def new_item_def make_space_exit)

lemma install_stores: "map_of (storage (install s k item)) k = Some item"
  by (simp add: install_def AList.update_conv')

text \<open>
  Claim C9 as stated fails: on a fresh storage \<^verbatim>\<open>set('', 'v', ttl=-1)\<close> returns \<^verbatim>\<open>True\<close> and
  the entry is stored under the empty key with its negative TTL, and so it is by
  \<^verbatim>\<open>CacheEngine.set\<close> on a running engine.
\<close>

theorem set_accepts_empty_key_counterexample:
  "(\<exists>s. AS_set length (init 10 1 (LRU [])) 0 '''' ''v'' (Some (- 1)) None = Some (True, s)
     \<and> map_of (storage s) '''' = Some (new_item length '''' ''v'' 0 (Some (- 1)) []))
   \<and> fst (CacheEngine_set bytes_len bytes_len
            \<lparr> engine_cache = lc_init 5, engine_running = True, start_time = Some 0 \<rparr>
            0 '''' ''v'' (Some (- 1))) = Inr True
   \<and> map_of (cache (engine_cache (snd (CacheEngine_set bytes_len bytes_len
            \<lparr> engine_cache = lc_init 5, engine_running = True, start_time = Some 0 \<rparr>
            0 '''' ''v'' (Some (- 1)))))) '''' =
       Some \<lparr> ci_value = ''v'', ci_created_at = 0, ci_ttl = Some (- 1), ci_access_count = 0,
              ci_last_accessed = 0 \<rparr>"
proof -
  have "\<exists>s. AS_set length (init 10 1 (LRU [])) 0 '''' ''v'' (Some (- 1)) None = Some (True, s)
     \<and> map_of (storage s) '''' = Some (new_item length '''' ''v'' 0 (Some (- 1)) [])"
    by (simp add: eval_defs)
  then show ?thesis
    by (simp add: CacheEngine_set_def LRUCache_set_def update_memory_usage_def lc_init_def
        bytes_len_def Let_def)
qed

text \<open>
  Claim C9, amended. The core \<^verbatim>\<open>set\<close> checks neither the key nor the TTL. In the storage
  core, when no space has to be made, a call with the empty key, and a call with a TTL
  \<open>d \<le> 0\<close>, returns \<^verbatim>\<open>True\<close> with the entry stored as given. In the engine's cache such a
  call stores the entry as given and returns \<^verbatim>\<open>True\<close>, unless the recomputation of the byte
  total raises; \<^verbatim>\<open>CacheEngine.set\<close> on a running engine does what its cache does, and on an
  engine that is not running raises \<^verbatim>\<open>RuntimeError\<close> whatever the arguments. For a key that
  is not stored, \<^verbatim>\<open>get\<close> returns a miss, recording it, and \<^verbatim>\<open>delete\<close> returns \<^verbatim>\<open>False\<close> and
  changes nothing, in the storage core and in the engine's cache; neither raises.
\<close>

theorem set_does_not_validate:
  "(\<not> need_space (if map_of (storage s) [] \<noteq> None then remove_item s [] else s)
        (estimate_size vsz [] v) \<longrightarrow>
      (\<exists>s'. AS_set vsz s now [] v t tgs = Some (True, s')
         \<and> map_of (storage s') [] =
             Some (new_item vsz [] v now t (case tgs of None \<Rightarrow> [] | Some ts \<Rightarrow> ts))))
   \<and> (d \<le> 0 \<and> \<not> need_space (if map_of (storage s) k \<noteq> None then remove_item s k else s)
        (estimate_size vsz k v) \<longrightarrow>
      (\<exists>s'. AS_set vsz s now k v (Some d) tgs = Some (True, s')
         \<and> map_of (storage s') k =
             Some (new_item vsz k v now (Some d) (case tgs of None \<Rightarrow> [] | Some ts \<Rightarrow> ts))))
   \<and> (map_of (storage s) k = None \<longrightarrow>
        AS_get s now k =
          Inr (None, s\<lparr> access_count := access_count s + 1, miss_count := miss_count s + 1 \<rparr>)
      \<and> AS_delete s k = (False, s))
   \<and> map_of (cache (snd (LRUCache_set kenc venc c now [] w t))) [] =
       Some \<lparr> ci_value = w, ci_created_at = now, ci_ttl = t, ci_access_count = 0,
              ci_last_accessed = now \<rparr>
   \<and> fst (LRUCache_set kenc venc c now [] w t) =
       (case cache_bytes kenc venc (cache (snd (LRUCache_set kenc venc c now [] w t))) of
          Inl err \<Rightarrow> Inl err | Inr n \<Rightarrow> Inr True)
   \<and> (d \<le> 0 \<longrightarrow>
        map_of (cache (snd (LRUCache_set kenc venc c now k w (Some d)))) k =
          Some \<lparr> ci_value = w, ci_created_at = now, ci_ttl = Some d, ci_access_count = 0,
                 ci_last_accessed = now \<rparr>
      \<and> fst (LRUCache_set kenc venc c now k w (Some d)) =
          (case cache_bytes kenc venc (cache (snd (LRUCache_set kenc venc c now k w (Some d)))) of
             Inl err \<Rightarrow> Inl err | Inr n \<Rightarrow> Inr True))
   \<and> CacheEngine_set kenc venc (e\<lparr> engine_running := True \<rparr>) now k w t =
       (fst (LRUCache_set kenc venc (engine_cache e) now k w t),
        e\<lparr> engine_running := True,
           engine_cache := snd (LRUCache_set kenc venc (engine_cache e) now k w t) \<rparr>)
   \<and> CacheEngine_set kenc venc (e\<lparr> engine_running := False \<rparr>) now k w t =
       (Inl RuntimeError, e\<lparr> engine_running := False \<rparr>)
   \<and> (map_of (cache c) k = None \<longrightarrow>
        LRUCache_get c now k = (None, c\<lparr> stats := (stats c)\<lparr> misses := misses (stats c) + 1 \<rparr> \<rparr>)
      \<and> LRUCache_delete kenc venc c k = (Inr False, c))"
proof -
  have 1: "\<not> need_space (if map_of (storage s) [] \<noteq> None then remove_item s [] else s)
        (estimate_size vsz [] v) \<longrightarrow>
      (\<exists>s'. AS_set vsz s now [] v t tgs = Some (True, s')
         \<and> map_of (storage s') [] =
             Some (new_item vsz [] v now t (case tgs of None \<Rightarrow> [] | Some ts \<Rightarrow> ts)))"
    by (auto simp: AS_set_no_eviction install_stores)
  have 2: "d \<le> 0 \<and> \<not> need_space (if map_of (storage s) k \<noteq> None then remove_item s k else s)
        (estimate_size vsz k v) \<longrightarrow>
      (\<exists>s'. AS_set vsz s now k v (Some d) tgs = Some (True, s')
         \<and> map_of (storage s') k =
             Some (new_item vsz k v now (Some d) (case tgs of None \<Rightarrow> [] | Some ts \<Rightarrow> ts)))"
    by (auto simp: AS_set_no_eviction install_stores)
  have 3: "map_of (storage s) k = None \<longrightarrow>
        AS_get s now k =
          Inr (None, s\<lparr> access_count := access_count s + 1, miss_count := miss_count s + 1 \<rparr>)
      \<and> AS_delete s k = (False, s)"
    by (auto simp: AS_get_def AS_delete_def Let_def)
  have 4: "CacheEngine_set kenc venc (e\<lparr> engine_running := True \<rparr>) now k w t =
       (fst (LRUCache_set kenc venc (engine_cache e) now k w t),
        e\<lparr> engine_running := True,
           engine_cache := snd (LRUCache_set kenc venc (engine_cache e) now k w t) \<rparr>)"
    "CacheEngine_set kenc venc (e\<lparr> engine_running := False \<rparr>) now k w t =
       (Inl RuntimeError, e\<lparr> engine_running := False \<rparr>)"
    by (simp_all add: CacheEngine_set_def Let_def)
  have 5: "map_of (cache c) k = None \<longrightarrow>
        LRUCache_get c now k = (None, c\<lparr> stats := (stats c)\<lparr> misses := misses (stats c) + 1 \<rparr> \<rparr>)
      \<and> LRUCache_delete kenc venc c k = (Inr False, c)"
    by (simp add: LRUCache_get_def LRUCache_delete_def)
  from 1 2 3 4 5 lru_set_stores [of kenc venc c now "[]" w t]
    lru_set_stores [of kenc venc c now k w "Some d"]
    lru_set_result [of kenc venc c now "[]" w t]
    lru_set_result [of kenc venc c now k w "Some d"]
  show ?thesis by blast
qed

theorem set_does_not_validate_witness:
  "(\<exists>s'. AS_set length (init 10 1 (LRU [])) 0 [] ''v'' None None = Some (True, s')
         \<and> map_of (storage s') [] = Some (new_item length [] ''v'' 0 None []))
   \<and> (\<exists>s'. AS_set length (init 10 1 (LRU [])) 0 ''k'' ''v'' (Some (- 1)) None = Some (True, s')
         \<and> map_of (storage s') ''k'' = Some (new_item length ''k'' ''v'' 0 (Some (- 1)) []))
   \<and> AS_get (init 10 1 (LRU []) :: string AdvancedStorage) 0 ''k'' =
          Inr (None, (init 10 1 (LRU []))\<lparr> access_count := 1, miss_count := 1 \<rparr>)
   \<and> AS_delete (init 10 1 (LRU []) :: string AdvancedStorage) ''k'' = (False, init 10 1 (LRU []))
   \<and> map_of (cache (snd (LRUCache_set bytes_len bytes_len (lc_init 5) 0 ''k'' ''v'' (Some (- 1)))))
        ''k'' =
       Some \<lparr> ci_value = ''v'', ci_created_at = 0, ci_ttl = Some (- 1), ci_access_count = 0,
              ci_last_accessed = 0 \<rparr>
   \<and> fst (LRUCache_set bytes_len bytes_len (lc_init 5) 0 ''k'' ''v'' (Some (- 1))) = Inr True
   \<and> fst (LRUCache_get (lc_init 5 :: string LRUCache) 0 ''k'') = None
   \<and> LRUCache_delete bytes_len bytes_len (lc_init 5 :: string LRUCache) ''k'' =
       (Inr False, lc_init 5)"
proof -
  have b: "cache_bytes bytes_len bytes_len
      (cache (snd (LRUCache_set bytes_len bytes_len (lc_init 5) 0 ''k'' ''v'' (Some (- 1))))) =
      Inr 102"
    by (simp add: lru_set_cache lc_init_def bytes_len_def Let_def)
  from set_does_not_validate [of "init 10 1 (LRU [])" length "''v''" 0 None None "- 1" "''k''"
      bytes_len bytes_len "lc_init 5" "''v''"] b
  show ?thesis
    by (simp add: init_def need_space_def estimate_size_def lc_init_def)
qed

subsection \<open>Capacity bounds and byte accounting\<close>

lemma stored_bytes_delete:
  "distinct (map fst st) \<Longrightarrow> map_of st k = Some item \<Longrightarrow>
   stored_bytes (AList.delete k st) = stored_bytes st - size_bytes item"
proof (induction st)
  case Nil
  then show ?case by simp
next
  case (Cons p st)
  show ?case
  proof (cases "fst p = k")
    case True
    with Cons.prems have "snd p = item" by (cases p) simp
    moreover from True Cons.prems have "AList.delete k st = st"
      by (auto simp: AList.delete_eq rev_image_eqI intro!: filter_True)
    ultimately show ?thesis using True by (cases p) (simp add: stored_bytes_def AList.delete_eq)
  next
    case False
    with Cons show ?thesis by (cases p) (auto simp: stored_bytes_def AList.delete_eq)
  qed
qed

lemma stored_bytes_update_new:
  "map_of st k = None \<Longrightarrow> stored_bytes (AList.update k item st) = stored_bytes st + size_bytes item"
  by (induction st) (auto simp: stored_bytes_def)

lemma stored_bytes_update_same:
  "map_of st k = Some item \<Longrightarrow> size_bytes item' = size_bytes item \<Longrightarrow>
   stored_bytes (AList.update k item' st) = stored_bytes st"
  by (induction st) (auto simp: stored_bytes_def)


lemma list_all_delete:
  "list_all P st \<Longrightarrow> list_all P (AList.delete k st)"
  by (simp add: AList.delete_eq list_all_iff)

lemma list_all_update:
  "list_all P st \<Longrightarrow> P (k, item) \<Longrightarrow> list_all P (AList.update k item st)"
  by (induction st) auto

lemma delete_absent: "map_of st k = None \<Longrightarrow> AList.delete k st = st"
  by (simp add: map_of_eq_None_iff)

lemma length_update_new: "map_of st k = None \<Longrightarrow> length (AList.update k item st) = Suc (length st)"
  by (induction st) (auto split: if_splits)

lemma length_update_old: "map_of st k = Some x \<Longrightarrow> length (AList.update k item st) = length st"
  by (induction st) auto

lemma remove_item_storage:
  "storage (remove_item s k) = AList.delete k (storage s)"
  by (simp add: remove_item_def delete_absent split: option.split)

lemma remove_item_total:
  "total_memory_bytes (remove_item s k) =
     (case map_of (storage s) k of None \<Rightarrow> total_memory_bytes s
      | Some item \<Rightarrow> total_memory_bytes s - size_bytes item)"
  by (simp add: remove_item_def split: option.split)

lemma remove_item_accounting: "accounting_ok s \<Longrightarrow> accounting_ok (remove_item s k)"
  by (auto simp: accounting_ok_def remove_item_storage remove_item_total AList.distinct_delete
      stored_bytes_delete list_all_delete delete_absent split: option.split)


lemma remove_item_absent:
  "map_of (storage s) k = None \<Longrightarrow> map_of (storage (remove_item s k')) k = None"
  by (simp add: remove_item_storage AList.delete_conv)

lemma remove_item_gone: "map_of (storage (remove_item s k)) k = None"
  by (simp add: remove_item_storage AList.delete_conv)

lemma evict_one_storage:
  "storage (snd (evict_one s now)) = storage s
   \<or> (\<exists>k. storage (snd (evict_one s now)) = AList.delete k (storage s))"
  by (auto simp: evict_one_def Let_def remove_item_storage split: option.split)

lemma evict_one_absent:
  "map_of (storage s) k = None \<Longrightarrow> map_of (storage (snd (evict_one s now))) k = None"
  using evict_one_storage [of s now] by (auto simp: AList.delete_conv)


lemma install_accounting:
  assumes "accounting_ok s" and "map_of (storage s) k = None" and "0 \<le> size_bytes item"
  shows "accounting_ok (install s k item)"
  using assms
  by (simp add: accounting_ok_def install_def AList.distinct_update stored_bytes_update_new
      list_all_update)

text \<open>What a successful exit of the loop of \<^verbatim>\<open>set\<close> followed by the insertion gives.\<close>

lemma AS_set_cases:
  assumes "AS_set vsz s now k v t tgs = Some r"
  obtains s2 where
    "make_space (if map_of (storage s) k \<noteq> None then remove_item s k else s) now
       (estimate_size vsz k v) = Some (fst r, s2)"
    "snd r = (if fst r
              then install s2 k (new_item vsz k v now t (case tgs of None \<Rightarrow> [] | Some ts \<Rightarrow> ts))
              else s2)"
  using assms
  by (auto simp: AS_set_def Let_def new_item_def split: option.splits bool.splits prod.splits)

lemma AS_set_success_bounds:
  assumes "AS_set vsz s now k v t tgs = Some (True, s')"
  shows "int (length (storage s')) \<le> max_size s' \<and> total_memory_bytes s' \<le> max_memory_bytes s'"
proof -
  let ?s1 = "if map_of (storage s) k \<noteq> None then remove_item s k else s"
  let ?item = "new_item vsz k v now t (case tgs of None \<Rightarrow> [] | Some ts \<Rightarrow> ts)"
  from AS_set_cases [OF assms] obtain s2 where
    m: "make_space ?s1 now (estimate_size vsz k v) = Some (True, s2)" and s': "s' = install s2 k ?item"
    by auto
  have "map_of (storage ?s1) k = None" by (simp add: remove_item_gone)
  with make_space_rule [OF m, where Q = "\<lambda>u. map_of (storage u) k = None"]
  have ab: "map_of (storage s2) k = None" and ns: "\<not> need_space s2 (estimate_size vsz k v)"
    by (auto simp: evict_one_absent)
  from ab ns s' show ?thesis
    by (simp add: install_def need_space_def length_update_new new_item_def)
qed


lemma remove_item_inv: "storage_inv s \<Longrightarrow> storage_inv (remove_item s k)"
proof -
  assume i: "storage_inv s"
  then have a: "accounting_ok (remove_item s k)"
    by (simp add: storage_inv_def remove_item_accounting)
  have l: "length (storage (remove_item s k)) \<le> length (storage s)"
    by (simp add: remove_item_storage AList.length_delete_le)
  have "total_memory_bytes (remove_item s k) \<le> total_memory_bytes s"
  proof (cases "map_of (storage s) k")
    case None
    then show ?thesis by (simp add: remove_item_total)
  next
    case (Some item)
    then have "(k, item) \<in> set (storage s)" by (rule map_of_SomeD)
    with i have "0 \<le> size_bytes item"
      by (auto simp: storage_inv_def accounting_ok_def list_all_iff)
    with Some show ?thesis by (simp add: remove_item_total)
  qed
  with i a l show ?thesis
    by (simp add: storage_inv_def within_bounds_def remove_item_frame)
qed

lemma evict_one_inv: "storage_inv s \<Longrightarrow> storage_inv (snd (evict_one s now))"
proof -
  assume a: "storage_inv s"
  have p: "storage_inv (u\<lparr> eviction_policy := q \<rparr>) = storage_inv u" for u :: "'a AdvancedStorage" and q
    by (simp add: storage_inv_def accounting_ok_def within_bounds_def)
  have e: "storage_inv (u\<lparr> eviction_count := n \<rparr>) = storage_inv u" for u :: "'a AdvancedStorage" and n
    by (simp add: storage_inv_def accounting_ok_def within_bounds_def)
  from a show ?thesis
    by (auto simp: evict_one_def Let_def p e intro!: remove_item_inv split: option.split)
qed

lemma AS_set_inv:
  assumes "AS_set vsz s now k v t tgs = Some r" and "storage_inv s"
  shows "storage_inv (snd r)"
proof -
  let ?s1 = "if map_of (storage s) k \<noteq> None then remove_item s k else s"
  let ?item = "new_item vsz k v now t (case tgs of None \<Rightarrow> [] | Some ts \<Rightarrow> ts)"
  from AS_set_cases [OF assms(1)] obtain s2 where
    m: "make_space ?s1 now (estimate_size vsz k v) = Some (fst r, s2)"
    and r: "snd r = (if fst r then install s2 k ?item else s2)"
    by auto
  have "storage_inv ?s1 \<and> map_of (storage ?s1) k = None"
    using assms(2) by (auto simp: remove_item_inv remove_item_gone)
  with make_space_rule [OF m, where Q = "\<lambda>u. storage_inv u \<and> map_of (storage u) k = None"]
  have i2: "storage_inv s2" and ab: "map_of (storage s2) k = None"
    by (auto simp: evict_one_absent evict_one_inv)
  show ?thesis
  proof (cases "fst r")
    case False
    with r i2 show ?thesis by simp
  next
    case True
    with assms(1) have "AS_set vsz s now k v t tgs = Some (True, snd r)"
      by (metis prod.collapse)
    from AS_set_success_bounds [OF this] have b: "within_bounds (snd r)"
      by (simp add: within_bounds_def)
    have "0 \<le> size_bytes ?item" by (simp add: new_item_def estimate_size_def)
    with i2 ab have "accounting_ok (install s2 k ?item)"
      by (simp add: install_accounting storage_inv_def)
    with True r b i2 show ?thesis
      by (simp add: storage_inv_def install_def)
  qed
qed

lemma touch_inv:
  assumes "storage_inv u" and "map_of (storage u) k = Some item"
      and "size_bytes item' = size_bytes item"
      and "storage w = AList.update k item' (storage u)"
      and "max_size w = max_size u" and "max_memory_bytes w = max_memory_bytes u"
      and "total_memory_bytes w = total_memory_bytes u"
  shows "storage_inv w"
proof -
  from assms(2) have "(k, item) \<in> set (storage u)" by (rule map_of_SomeD)
  with assms(1) have "0 \<le> size_bytes item"
    by (auto simp: storage_inv_def accounting_ok_def list_all_iff)
  with assms show ?thesis
    by (simp add: storage_inv_def accounting_ok_def within_bounds_def AList.distinct_update
        stored_bytes_update_same list_all_update length_update_old)
qed

lemma AS_get_inv:
  assumes "AS_get s now k = Inr r" and "storage_inv s"
  shows "storage_inv (snd r)"
proof -
  have c: "storage_inv (u\<lparr> access_count := n \<rparr>) = storage_inv u" for u :: "'a AdvancedStorage" and n
    by (simp add: storage_inv_def accounting_ok_def within_bounds_def)
  have m: "storage_inv (u\<lparr> miss_count := n \<rparr>) = storage_inv u" for u :: "'a AdvancedStorage" and n
    by (simp add: storage_inv_def accounting_ok_def within_bounds_def)
  show ?thesis
  proof (cases "map_of (storage s) k")
    case None
    with assms show ?thesis by (auto simp: AS_get_def Let_def c m)
  next
    case (Some item)
    show ?thesis
    proof (cases "is_expired item now")
      case True
      with Some assms show ?thesis
        by (auto simp: AS_get_def Let_def c m remove_item_frame intro!: remove_item_inv)
    next
      case False
      let ?item' = "item\<lparr> last_accessed := now, item_access_count := item_access_count item + 1 \<rparr>"
      from False Some assms(1) obtain q where
        "snd r = s\<lparr> access_count := access_count s + 1,
                    storage := AList.update k ?item' (storage s),
                    eviction_policy := q, hit_count := hit_count s + 1 \<rparr>"
        by (auto simp: AS_get_def Let_def split: sum.splits)
      then show ?thesis
        by (intro touch_inv [OF assms(2) Some, where item' = ?item']) simp_all
    qed
  qed
qed

lemma step_inv:
  assumes "step vsz s now c = Some s'" and "storage_inv s"
  shows "storage_inv s'"
proof (cases c)
  case (Get k)
  with assms AS_get_inv [of s now k] show ?thesis by (auto split: sum.splits)
next
  case (Set k v t tgs)
  with assms AS_set_inv [of vsz s now k v t tgs] show ?thesis by auto
next
  case (Delete k)
  with assms show ?thesis by (auto simp: AS_delete_def remove_item_inv)
next
  case Clear
  with assms show ?thesis
    by (auto simp: AS_clear_def storage_inv_def accounting_ok_def within_bounds_def stored_bytes_def)
qed

lemma run_inv: "run vsz s cs = Some s' \<Longrightarrow> storage_inv s \<Longrightarrow> storage_inv s'"
proof (induction cs arbitrary: s)
  case Nil
  then show ?case by simp
next
  case (Cons c cs)
  then obtain s1 where s1: "step vsz s (fst c) (snd c) = Some s1" and r: "run vsz s1 cs = Some s'"
    by (auto split: option.splits)
  from Cons.IH [OF r step_inv [OF s1 Cons.prems(2)]] show ?case .
qed

lemma init_inv: "0 \<le> msize \<Longrightarrow> 0 \<le> mm \<Longrightarrow> storage_inv (init msize mm pol)"
  by (simp add: storage_inv_def accounting_ok_def within_bounds_def init_def stored_bytes_def)

text \<open>
  The engine's \<^verbatim>\<open>LRUCache\<close> has a bound on entries only. A \<^verbatim>\<open>set\<close> keeps it when
  \<^verbatim>\<open>max_size\<close> is at least 1, whether it returns or raises; \<^verbatim>\<open>get\<close>, \<^verbatim>\<open>delete\<close> and \<^verbatim>\<open>clear\<close>
  add no entry; no operation changes \<^verbatim>\<open>max_size\<close>.
\<close>

lemma length_delete_present:
  "map_of c k \<noteq> None \<Longrightarrow> length (AList.delete k c) < length c"
  by (induction c) (auto simp: AList.delete_eq le_imp_less_Suc split: if_splits)

lemma length_delete_le: "length (AList.delete k c) \<le> length c"
  by (induction c) (auto simp: AList.delete_eq le_SucI)

lemma LRUCache_set_count_bound:
  assumes "1 \<le> lc_max_size c" and "int (length (cache c)) \<le> lc_max_size c"
  shows "int (length (cache (snd (LRUCache_set kenc venc c now k v t)))) \<le> lc_max_size c"
proof (cases "map_of (cache c) k")
  case (Some x)
  then have "length (AList.delete k (cache c)) < length (cache c)"
    by (simp add: length_delete_present)
  with Some assms show ?thesis
    by (simp add: lru_set_cache Let_def)
next
  case None
  show ?thesis
  proof (cases "cache c")
    case Nil
    with None assms show ?thesis
      by (simp add: lru_set_cache Let_def evict_lru_def)
  next
    case (Cons p ps)
    obtain k0 x0 where p: "p = (k0, x0)" by (cases p)
    with Cons have l: "length (AList.delete k0 (cache c)) < length (cache c)"
      by (intro length_delete_present) simp
    from None have "map_of (AList.delete k0 (cache c)) k = None"
      by (simp add: AList.delete_conv)
    then have "length (AList.update k item (AList.delete k0 (cache c)))
        = Suc (length (AList.delete k0 (cache c)))" for item
      by (rule length_update_new)
    with None Cons p l assms length_update_new [OF None] show ?thesis
      by (simp add: lru_set_cache Let_def evict_lru_def)
  qed
qed

lemma LRUCache_get_count:
  "length (cache (snd (LRUCache_get c now k))) \<le> length (cache c)
   \<and> lc_max_size (snd (LRUCache_get c now k)) = lc_max_size c"
proof (cases "map_of (cache c) k")
  case None
  then show ?thesis by (simp add: LRUCache_get_def)
next
  case (Some item)
  then have "length (AList.delete k (cache c)) < length (cache c)"
    by (simp add: length_delete_present)
  with Some show ?thesis by (simp add: LRUCache_get_def Let_def)
qed

lemma LRUCache_delete_count:
  "length (cache (snd (LRUCache_delete kenc venc c k))) \<le> length (cache c)
   \<and> lc_max_size (snd (LRUCache_delete kenc venc c k)) = lc_max_size c"
  by (simp add: LRUCache_delete_def update_memory_usage_def Let_def length_delete_le
      split: sum.splits)

lemma LRUCache_clear_count:
  "length (cache (snd (LRUCache_clear kenc venc c))) \<le> length (cache c)
   \<and> lc_max_size (snd (LRUCache_clear kenc venc c)) = lc_max_size c"
  by (simp add: LRUCache_clear_def update_memory_usage_def Let_def split: sum.splits)

lemma lc_step_bound:
  assumes "1 \<le> lc_max_size c" and "int (length (cache c)) \<le> lc_max_size c"
  shows "int (length (cache (lc_step kenc venc c now x))) \<le> lc_max_size c
       \<and> lc_max_size (lc_step kenc venc c now x) = lc_max_size c"
proof (cases x)
  case (LGet k)
  with LRUCache_get_count [of c now k] assms(2) show ?thesis by simp
next
  case (LSet k v t)
  with LRUCache_set_count_bound [OF assms] show ?thesis by (simp add: lru_set_stats)
next
  case (LDelete k)
  with LRUCache_delete_count [of kenc venc c k] assms(2) show ?thesis by simp
next
  case LClear
  with LRUCache_clear_count [of kenc venc c] assms(2) show ?thesis by simp
qed

lemma lc_run_bound:
  assumes "1 \<le> lc_max_size c" and "int (length (cache c)) \<le> lc_max_size c"
  shows "int (length (cache (lc_run kenc venc c xs))) \<le> lc_max_size c
       \<and> lc_max_size (lc_run kenc venc c xs) = lc_max_size c"
  using assms
proof (induction xs arbitrary: c)
  case Nil
  then show ?case by simp
next
  case (Cons x xs)
  from lc_step_bound [OF Cons.prems, of kenc venc "fst x" "snd x"]
  have b: "int (length (cache (lc_step kenc venc c (fst x) (snd x)))) \<le> lc_max_size c"
    and m: "lc_max_size (lc_step kenc venc c (fst x) (snd x)) = lc_max_size c"
    by simp_all
  from Cons.IH [of "lc_step kenc venc c (fst x) (snd x)"] b m Cons.prems(1)
  show ?case by simp
qed

text \<open>
  Claim C2 as stated fails. In the engine's \<^verbatim>\<open>LRUCache\<close> with \<^verbatim>\<open>max_size = 0\<close> the first
  \<^verbatim>\<open>set\<close> returns \<^verbatim>\<open>True\<close> and leaves one entry: there is nothing to evict, and the entry is
  stored all the same. An \<^verbatim>\<open>AdvancedStorage\<close> created with \<^verbatim>\<open>max_size = -1\<close>, or with
  \<^verbatim>\<open>max_memory_mb = -1\<close>, is beyond its bound from construction, with nothing stored.
\<close>

theorem capacity_exceeded_counterexample:
  "fst (LRUCache_set bytes_len bytes_len (lc_init 0) 0 ''k'' ''v'' None) = Inr True
   \<and> length (cache (snd (LRUCache_set bytes_len bytes_len (lc_init 0) 0 ''k'' ''v'' None))) = 1
   \<and> lc_max_size (snd (LRUCache_set bytes_len bytes_len (lc_init 0) 0 ''k'' ''v'' None)) = 0
   \<and> length (storage (init (- 1) 1 (LRU []) :: string AdvancedStorage)) = 0
   \<and> max_size (init (- 1) 1 (LRU []) :: string AdvancedStorage) = - 1
   \<and> total_memory_bytes (init 1 (- 1) (LRU []) :: string AdvancedStorage) = 0
   \<and> max_memory_bytes (init 1 (- 1) (LRU []) :: string AdvancedStorage) = - 1048576"
  by (simp add: LRUCache_set_def update_memory_usage_def lc_init_def evict_lru_def
      bytes_len_def init_def Let_def)

text \<open>
  Claim C2, amended. Whenever \<^verbatim>\<open>AdvancedStorage.set\<close> returns \<^verbatim>\<open>True\<close>, from any state, the
  number of entries is at most \<^verbatim>\<open>max_size\<close> and \<^verbatim>\<open>total_memory_bytes\<close> at most
  \<^verbatim>\<open>max_memory_bytes\<close>. After any sequence of calls that returned, on a storage created
  with maxima that are not negative, both bounds hold, and \<^verbatim>\<open>total_memory_bytes\<close> is the sum
  of the sizes of the stored entries. The engine's \<^verbatim>\<open>LRUCache\<close> has no maximum of bytes;
  with \<^verbatim>\<open>max_size\<close> at least 1, a \<^verbatim>\<open>set\<close> on a cache of at most \<^verbatim>\<open>max_size\<close> entries leaves at
  most \<^verbatim>\<open>max_size\<close> entries, and so does any sequence of \<^verbatim>\<open>get\<close>, \<^verbatim>\<open>set\<close>, \<^verbatim>\<open>delete\<close> and
  \<^verbatim>\<open>clear\<close> on a new cache, whether the calls return or raise.
\<close>

theorem capacity_bounds:
  "(AS_set vsz s now k v t tgs = Some (True, s') \<longrightarrow>
      int (length (storage s')) \<le> max_size s' \<and> total_memory_bytes s' \<le> max_memory_bytes s')
   \<and> (0 \<le> msize \<and> 0 \<le> mm \<and> run vsz (init msize mm pol) cs = Some s'' \<longrightarrow>
        int (length (storage s'')) \<le> max_size s''
      \<and> total_memory_bytes s'' \<le> max_memory_bytes s''
      \<and> total_memory_bytes s'' = stored_bytes (storage s''))
   \<and> (1 \<le> lc_max_size c \<and> int (length (cache c)) \<le> lc_max_size c \<longrightarrow>
        int (length (cache (snd (LRUCache_set kenc venc c lnow lk lv lt))))
          \<le> lc_max_size (snd (LRUCache_set kenc venc c lnow lk lv lt)))
   \<and> (1 \<le> lsize \<longrightarrow>
        int (length (cache (lc_run kenc venc (lc_init lsize) ls)))
          \<le> lc_max_size (lc_run kenc venc (lc_init lsize) ls)
      \<and> lc_max_size (lc_run kenc venc (lc_init lsize) ls) = lsize)"
proof (intro conjI impI)
  assume "AS_set vsz s now k v t tgs = Some (True, s')"
  then have "int (length (storage s')) \<le> max_size s' \<and> total_memory_bytes s' \<le> max_memory_bytes s'"
    by (rule AS_set_success_bounds)
  then show "int (length (storage s')) \<le> max_size s'"
    and "total_memory_bytes s' \<le> max_memory_bytes s'" by simp_all
next
  assume a: "0 \<le> msize \<and> 0 \<le> mm \<and> run vsz (init msize mm pol) cs = Some s''"
  then have "storage_inv s''" using run_inv init_inv by blast
  then show "int (length (storage s'')) \<le> max_size s''"
    and "total_memory_bytes s'' \<le> max_memory_bytes s''"
    and "total_memory_bytes s'' = stored_bytes (storage s'')"
    by (simp_all add: storage_inv_def within_bounds_def accounting_ok_def)
next
  assume "1 \<le> lc_max_size c \<and> int (length (cache c)) \<le> lc_max_size c"
  then have "int (length (cache (snd (LRUCache_set kenc venc c lnow lk lv lt)))) \<le> lc_max_size c"
    by (intro LRUCache_set_count_bound) simp_all
  then show "int (length (cache (snd (LRUCache_set kenc venc c lnow lk lv lt))))
          \<le> lc_max_size (snd (LRUCache_set kenc venc c lnow lk lv lt))"
    by (simp add: lru_set_stats)
next
  assume l: "1 \<le> lsize"
  with lc_run_bound [where c = "lc_init lsize" and kenc = kenc and venc = venc and xs = ls]
  show "int (length (cache (lc_run kenc venc (lc_init lsize) ls)))
          \<le> lc_max_size (lc_run kenc venc (lc_init lsize) ls)"
    and "lc_max_size (lc_run kenc venc (lc_init lsize) ls) = lsize"
    by (simp_all add: lc_init_def)
qed

theorem capacity_bounds_witness:
  "(\<exists>s'. AS_set length (init 1 1 (LRU [])) 0 ''a'' ''x'' None None = Some (True, s')
        \<and> int (length (storage s')) \<le> max_size s'
        \<and> total_memory_bytes s' \<le> max_memory_bytes s')
   \<and> (\<exists>s''. run length (init 1 1 (LRU [])) evict_calls = Some s''
        \<and> int (length (storage s'')) \<le> max_size s''
        \<and> total_memory_bytes s'' \<le> max_memory_bytes s''
        \<and> total_memory_bytes s'' = stored_bytes (storage s''))
   \<and> int (length (cache (snd (LRUCache_set bytes_len utf8_len full_cache 1 ''b'' [121] None))))
       \<le> lc_max_size (snd (LRUCache_set bytes_len utf8_len full_cache 1 ''b'' [121] None))
   \<and> int (length (cache (lc_run bytes_len utf8_len (lc_init 1) cache_calls)))
       \<le> lc_max_size (lc_run bytes_len utf8_len (lc_init 1) cache_calls)
   \<and> lc_max_size (lc_run bytes_len utf8_len (lc_init 1) cache_calls) = 1"
proof -
  obtain s' where 1: "AS_set length (init 1 1 (LRU [])) 0 ''a'' ''x'' None None = Some (True, s')"
    by (simp add: eval_defs)
  have "\<exists>s''. run length (init 1 1 (LRU [])) evict_calls = Some s''"
    by (simp add: evict_calls_def eval_defs)
  then obtain s'' where 2: "run length (init 1 1 (LRU [])) evict_calls = Some s''" ..
  from 1 2 capacity_bounds [of length "init 1 1 (LRU [])" 0 "''a''" "''x''" None None s' 1 1
      "LRU []" evict_calls s'' full_cache bytes_len utf8_len 1 "''b''" "[121]" None 1 cache_calls]
  show ?thesis by (simp add: full_cache_built)
qed

subsection \<open>Termination of the eviction loop\<close>


lemma lfu_select_shrinks:
  "fst (lfu_select h f) \<noteq> None \<Longrightarrow> length (snd (lfu_select h f)) < length h"
  by (induction h f rule: lfu_select.induct) (auto split: if_splits)

lemma ttl_select_shrinks:
  "fst (ttl_select h st now) \<noteq> None \<Longrightarrow> length (snd (ttl_select h st now)) < length h"
  by (induction h st now rule: ttl_select.induct)
    (auto split: if_splits option.splits intro!: less_SucI)

lemma policy_size_on_remove: "policy_size (on_remove p k) \<le> policy_size p"
  by (cases p) simp_all

lemma remove_item_policy:
  "eviction_policy (remove_item s k) =
     (if map_of (storage s) k = None then eviction_policy s else on_remove (eviction_policy s) k)"
  by (simp add: remove_item_def split: option.split)

lemma evict_one_shrinks:
  assumes "victims_stored s" and "fst (evict_one s now)"
  shows "victims_stored (snd (evict_one s now))
       \<and> policy_size (eviction_policy (snd (evict_one s now))) < policy_size (eviction_policy s)"
proof (cases "eviction_policy s")
  case (LRU ao)
  with assms(2) obtain k ks where ao: "ao = k # ks" and k: "k \<noteq> []"
    by (auto simp: evict_one_def Let_def split: list.splits if_splits)
  from assms(1) LRU ao have st: "map_of (storage s) k \<noteq> None"
    and rest: "list_all (\<lambda>k. map_of (storage s) k \<noteq> None) ks"
    by (simp_all add: victims_stored_def)
  from LRU ao k have e: "snd (evict_one s now) =
      (remove_item (s\<lparr> eviction_policy := LRU ao \<rparr>) k)\<lparr> eviction_count := eviction_count s + 1 \<rparr>"
    by (simp add: evict_one_def Let_def)
  from st obtain y where "map_of (storage s) k = Some y" by auto
  then have p: "eviction_policy (snd (evict_one s now)) = LRU (removeAll k ks)"
    by (simp add: e remove_item_policy ao)
  have "length (removeAll k ks) < Suc (length ks)"
    by (simp add: length_removeAll_less_eq le_imp_less_Suc)
  moreover from rest have "list_all (\<lambda>k'. map_of (AList.delete k (storage s)) k' \<noteq> None) (removeAll k ks)"
    by (auto simp: list_all_iff AList.delete_conv)
  ultimately show ?thesis using LRU ao
    by (simp add: p victims_stored_def) (simp add: e remove_item_storage)
next
  case (LFU h f c)
  with assms(2) have v: "fst (lfu_select h f) \<noteq> None"
    by (auto simp: evict_one_def Let_def split: option.splits)
  have "policy_size (eviction_policy (snd (evict_one s now))) \<le> length (snd (lfu_select h f))"
    using LFU by (auto simp: evict_one_def Let_def remove_item_def split: option.splits)
  moreover have "lru_keys (eviction_policy (snd (evict_one s now))) = []"
    using LFU by (auto simp: evict_one_def Let_def remove_item_def split: option.splits)
  ultimately show ?thesis using lfu_select_shrinks [OF v] LFU
    by (simp add: victims_stored_def)
next
  case (TTL h)
  with assms(2) have v: "fst (ttl_select h (storage s) now) \<noteq> None"
    by (auto simp: evict_one_def Let_def split: option.splits)
  have "policy_size (eviction_policy (snd (evict_one s now))) \<le> length (snd (ttl_select h (storage s) now))"
    using TTL by (auto simp: evict_one_def Let_def remove_item_def split: option.splits)
  moreover have "lru_keys (eviction_policy (snd (evict_one s now))) = []"
    using TTL by (auto simp: evict_one_def Let_def remove_item_def split: option.splits)
  ultimately show ?thesis using ttl_select_shrinks [OF v] TTL
    by (simp add: victims_stored_def)
qed


subsection \<open>Refused inserts\<close>

lemma length_big_value: "length big_value = 1048576"
  unfolding big_value_def by (rule length_replicate)

lemma one_entry_run:
  "run length (init 10 1 (LRU [])) [(0, Set ''a'' ''x'' None None)] = Some one_entry_state"
  by (simp add: one_entry_state_def eval_defs)





lemma remove_item_victims: "victims_stored s \<Longrightarrow> victims_stored (remove_item s k)"
  by (cases "eviction_policy s")
    (auto simp: victims_stored_def remove_item_def list_all_iff AList.delete_conv
      split: option.split)







subsection \<open>Replacing the value of a key\<close>

lemma replace_refused:
  "AS_set length one_entry_state 1 ''a'' big_value None None =
     Some (False, emptied_state\<lparr> eviction_count := 0 \<rparr>)"
  by (simp add: one_entry_state_def emptied_state_def length_big_value eval_defs)

text \<open>
  Claim C4 as stated fails for the storage core. After \<^verbatim>\<open>set('a', 'x')\<close> on a storage of
  1 MB, \<^verbatim>\<open>set('a', v2)\<close> with a value of 1 MB removes the old entry, finds no victim to make
  room and returns \<^verbatim>\<open>False\<close>: the entry count went from 1 to 0 and \<^verbatim>\<open>get('a')\<close> misses.
\<close>

theorem replacement_refused_counterexample:
  "run length (init 10 1 (LRU [])) [(0, Set ''a'' ''x'' None None)] = Some one_entry_state
   \<and> (\<exists>s2 s3. AS_set length one_entry_state 1 ''a'' big_value None None = Some (False, s2)
        \<and> length (storage one_entry_state) = 1 \<and> length (storage s2) = 0
        \<and> AS_get s2 2 ''a'' = Inr (None, s3))"
proof -
  have 1: "length (storage one_entry_state) = 1" by (simp add: one_entry_state_def)
  have 2: "length (storage (emptied_state\<lparr> eviction_count := 0 \<rparr>)) = 0"
    by (simp add: emptied_state_def)
  have 3: "\<exists>s3. AS_get (emptied_state\<lparr> eviction_count := 0 \<rparr>) 2 ''a'' = Inr (None, s3)"
    by (simp add: emptied_state_def AS_get_def Let_def)
  from one_entry_run replace_refused 1 2 3 show ?thesis by blast
qed

lemma on_access_after_insert:
  "\<exists>p. on_access (on_insert q k item) k item' = Inr p"
  by (cases q) (auto simp: Let_def split: option.split)

lemma get_fresh:
  assumes "map_of (storage s) k = Some item" and "\<not> is_expired item now"
      and "on_access (eviction_policy s) k
             (item\<lparr> last_accessed := now, item_access_count := item_access_count item + 1 \<rparr>) = Inr p"
  shows "\<exists>s'. AS_get s now k = Inr (Some (val item), s')"
  using assms by (simp add: AS_get_def Let_def)

lemma AS_set_then_get:
  assumes "AS_set vsz s now k v t tgs = Some (True, s2)" and "fresh_at t now now'"
  shows "\<exists>s3. AS_get s2 now' k = Inr (Some v, s3)"
proof -
  let ?item = "new_item vsz k v now t (case tgs of None \<Rightarrow> [] | Some ts \<Rightarrow> ts)"
  from AS_set_cases [OF assms(1)] obtain u where s2: "s2 = install u k ?item" by auto
  then have st: "map_of (storage s2) k = Some ?item" by (simp add: install_stores)
  from assms(2) have ne: "\<not> is_expired ?item now'"
    by (auto simp: fresh_at_def is_expired_def new_item_def split: option.splits)
  from s2 have "eviction_policy s2 = on_insert (eviction_policy u) k ?item"
    by (simp add: install_def)
  with on_access_after_insert obtain p where
    "on_access (eviction_policy s2) k
       (?item\<lparr> last_accessed := now', item_access_count := item_access_count ?item + 1 \<rparr>) = Inr p"
    by metis
  from get_fresh [OF st ne this] show ?thesis by (simp add: new_item_def)
qed

lemma length_delete_distinct:
  "distinct (map fst st) \<Longrightarrow> map_of st k = Some x \<Longrightarrow>
   Suc (length (AList.delete k st)) = length st"
proof (induction st)
  case Nil
  then show ?case by simp
next
  case (Cons p st)
  show ?case
  proof (cases "fst p = k")
    case True
    with Cons.prems have "map_of st k = None" by (cases p) (auto simp: map_of_eq_None_iff)
    then have "AList.delete k st = st" by (rule delete_absent)
    with True show ?thesis by (cases p) (simp add: AList.delete_eq)
  next
    case False
    with Cons show ?thesis by (cases p) (auto simp: AList.delete_eq)
  qed
qed

lemma AS_set_replace_fits:
  assumes st: "map_of (storage s) k = Some old"
      and d: "distinct (map fst (storage s))"
      and c: "int (length (storage s)) \<le> max_size s"
      and f: "total_memory_bytes s - size_bytes old + estimate_size vsz k v \<le> max_memory_bytes s"
  shows "\<exists>s2. AS_set vsz s now k v t tgs = Some (True, s2)
           \<and> length (storage s2) = length (storage s)
           \<and> total_memory_bytes s2 = total_memory_bytes s - size_bytes old + estimate_size vsz k v
           \<and> tag_index s2 =
               fold (add_tag k) (case tgs of None \<Rightarrow> [] | Some ts \<Rightarrow> ts)
                 (fold (untag k) (tags old) (tag_index s))"
proof -
  let ?s1 = "remove_item s k"
  let ?item = "new_item vsz k v now t (case tgs of None \<Rightarrow> [] | Some ts \<Rightarrow> ts)"
  from st have eq: "(if map_of (storage s) k \<noteq> None then remove_item s k else s) = ?s1"
    by simp
  from length_delete_distinct [OF d st]
  have l: "Suc (length (storage ?s1)) = length (storage s)"
    by (simp add: remove_item_storage)
  from st have tot: "total_memory_bytes ?s1 = total_memory_bytes s - size_bytes old"
    by (simp add: remove_item_total)
  from l c tot f have ns: "\<not> need_space ?s1 (estimate_size vsz k v)"
    by (simp add: need_space_def remove_item_frame)
  have r: "AS_set vsz s now k v t tgs = Some (True, install ?s1 k ?item)"
    using AS_set_no_eviction [of s k vsz v now t tgs] ns unfolding eq by blast
  have ab: "map_of (storage ?s1) k = None" by (simp add: remove_item_gone)
  have "length (storage (install ?s1 k ?item)) = length (storage s)"
    using length_update_new [OF ab] l by (simp add: install_def)
  moreover have "total_memory_bytes (install ?s1 k ?item)
      = total_memory_bytes s - size_bytes old + estimate_size vsz k v"
    using tot by (simp add: install_def new_item_def)
  moreover have "tag_index (install ?s1 k ?item) =
      fold (add_tag k) (case tgs of None \<Rightarrow> [] | Some ts \<Rightarrow> ts)
        (fold (untag k) (tags old) (tag_index s))"
    using st by (simp add: install_def new_item_def remove_item_def)
  ultimately show ?thesis using r by simp
qed

lemma lru_get_after_set:
  assumes "fresh_at t now now'"
  shows "fst (LRUCache_get (snd (LRUCache_set kenc venc c now k v t)) now' k) = Some v"
proof -
  from assms have "\<not> ci_is_expired \<lparr> ci_value = v, ci_created_at = now, ci_ttl = t,
      ci_access_count = 0, ci_last_accessed = now \<rparr> now'"
    by (auto simp: fresh_at_def ci_is_expired_def split: option.splits)
  with lru_set_stores [of kenc venc c now k v t] show ?thesis
    by (simp add: LRUCache_get_def Let_def)
qed

lemma lru_replace_count:
  assumes "map_of (cache c) k = Some x" and "distinct (map fst (cache c))"
  shows "current_size (stats (snd (LRUCache_set kenc venc c now k v t))) = current_size (stats c)
       \<and> length (cache (snd (LRUCache_set kenc venc c now k v t))) = length (cache c)"
  using assms length_delete_distinct [OF assms(2,1)]
  by (simp add: LRUCache_set_def Let_def update_memory_usage_def split: sum.splits)

text \<open>
  Claim C4, amended. In the storage core, a second \<^verbatim>\<open>set\<close> on a key that returns \<^verbatim>\<open>True\<close>
  is followed by \<^verbatim>\<open>get\<close> returning the new value, as long as the new entry has not
  expired. When the key is stored, keys are unique, the count is within \<^verbatim>\<open>max_size\<close> and
  the byte total with the old entry's size replaced by the new one's is within
  \<^verbatim>\<open>max_memory_bytes\<close>, the second \<^verbatim>\<open>set\<close> does return \<^verbatim>\<open>True\<close>, the entry count is unchanged,
  the old size is taken off the byte total and the new one added, and the old tags are
  unindexed before the new ones are indexed. In the engine's \<^verbatim>\<open>LRUCache\<close> a \<^verbatim>\<open>set\<close> is always
  followed by \<^verbatim>\<open>get\<close> returning its value (before expiry), and a \<^verbatim>\<open>set\<close> on a stored key
  leaves \<^verbatim>\<open>current_size\<close> and the number of entries unchanged, whether the \<^verbatim>\<open>set\<close> returns
  or raises after storing the entry. Before expiry means that the test of \<^verbatim>\<open>is_expired\<close>
  is false at the time of the \<^verbatim>\<open>get\<close>, which is so at every time, a double, that is at
  most the exact sum of the time of the \<^verbatim>\<open>set\<close> and the TTL (lemma \<open>fresh_exact\<close>).
\<close>

theorem replacement:
  "(AS_set vsz s now k v t tgs = Some (True, s2) \<and> fresh_at t now now' \<longrightarrow>
      (\<exists>s3. AS_get s2 now' k = Inr (Some v, s3)))
   \<and> (map_of (storage s) k = Some old \<and> distinct (map fst (storage s))
        \<and> int (length (storage s)) \<le> max_size s
        \<and> total_memory_bytes s - size_bytes old + estimate_size vsz k v \<le> max_memory_bytes s \<longrightarrow>
      (\<exists>s2. AS_set vsz s now k v t tgs = Some (True, s2)
           \<and> length (storage s2) = length (storage s)
           \<and> total_memory_bytes s2 = total_memory_bytes s - size_bytes old + estimate_size vsz k v
           \<and> tag_index s2 =
               fold (add_tag k) (case tgs of None \<Rightarrow> [] | Some ts \<Rightarrow> ts)
                 (fold (untag k) (tags old) (tag_index s))))
   \<and> (fresh_at t now now' \<longrightarrow>
        fst (LRUCache_get (snd (LRUCache_set kenc venc c now k v t)) now' k) = Some v)
   \<and> (map_of (cache c) k = Some x \<and> distinct (map fst (cache c)) \<longrightarrow>
        current_size (stats (snd (LRUCache_set kenc venc c now k v t))) = current_size (stats c)
      \<and> length (cache (snd (LRUCache_set kenc venc c now k v t))) = length (cache c))"
proof (intro conjI)
  show "AS_set vsz s now k v t tgs = Some (True, s2) \<and> fresh_at t now now' \<longrightarrow>
      (\<exists>s3. AS_get s2 now' k = Inr (Some v, s3))"
    by (rule impI, erule conjE, rule AS_set_then_get)
  show "map_of (storage s) k = Some old \<and> distinct (map fst (storage s))
        \<and> int (length (storage s)) \<le> max_size s
        \<and> total_memory_bytes s - size_bytes old + estimate_size vsz k v \<le> max_memory_bytes s \<longrightarrow>
      (\<exists>s2. AS_set vsz s now k v t tgs = Some (True, s2)
           \<and> length (storage s2) = length (storage s)
           \<and> total_memory_bytes s2 = total_memory_bytes s - size_bytes old + estimate_size vsz k v
           \<and> tag_index s2 =
               fold (add_tag k) (case tgs of None \<Rightarrow> [] | Some ts \<Rightarrow> ts)
                 (fold (untag k) (tags old) (tag_index s)))"
    by (rule impI, (erule conjE)+, rule AS_set_replace_fits)
  show "fresh_at t now now' \<longrightarrow>
        fst (LRUCache_get (snd (LRUCache_set kenc venc c now k v t)) now' k) = Some v"
    by (rule impI, rule lru_get_after_set)
  show "map_of (cache c) k = Some x \<and> distinct (map fst (cache c)) \<longrightarrow>
        current_size (stats (snd (LRUCache_set kenc venc c now k v t))) = current_size (stats c)
      \<and> length (cache (snd (LRUCache_set kenc venc c now k v t))) = length (cache c)"
    by (rule impI, erule conjE, rule lru_replace_count)
qed

theorem replacement_witness:
  "(\<exists>s2 s3. AS_set length one_entry_state 1 ''a'' ''yy'' None None = Some (True, s2)
        \<and> length (storage s2) = 1 \<and> total_memory_bytes s2 = 203
        \<and> AS_get s2 2 ''a'' = Inr (Some ''yy'', s3))
   \<and> fst (LRUCache_get (snd (LRUCache_set bytes_len bytes_len one_entry_cache 1 ''a'' ''yy'' None)) 2 ''a'')
       = Some ''yy''
   \<and> current_size (stats (snd (LRUCache_set bytes_len bytes_len one_entry_cache 1 ''a'' ''yy'' None))) = 1
   \<and> length (cache (snd (LRUCache_set bytes_len bytes_len one_entry_cache 1 ''a'' ''yy'' None))) = 1"
proof -
  let ?old = "new_item length ''a'' ''x'' 0 None []"
  have c: "map_of (cache one_entry_cache) ''a'' =
      Some \<lparr> ci_value = ''x'', ci_created_at = 0, ci_ttl = None, ci_access_count = 0,
             ci_last_accessed = 0 \<rparr>"
    "distinct (map fst (cache one_entry_cache))" "length (cache one_entry_cache) = 1"
    "current_size (stats one_entry_cache) = 1"
    by (simp_all add: one_entry_cache_def LRUCache_set_def lc_init_def Let_def
        update_memory_usage_def bytes_len_def)
  have f: "fresh_at None 1 2" by (simp add: fresh_at_def)
  from replacement [of length one_entry_state 1 "''a''" "''yy''" None None _ 2 ?old bytes_len bytes_len one_entry_cache]
  obtain s2 where s2: "AS_set length one_entry_state 1 ''a'' ''yy'' None None = Some (True, s2)"
    and l: "length (storage s2) = 1" and tot: "total_memory_bytes s2 = 203"
    by (auto simp: one_entry_state_def new_item_def estimate_size_def)
  from replacement [of length one_entry_state 1 "''a''" "''yy''" None None s2 2 ?old bytes_len bytes_len one_entry_cache] s2 f c
  have "(\<exists>s3. AS_get s2 2 ''a'' = Inr (Some ''yy'', s3))
    \<and> fst (LRUCache_get (snd (LRUCache_set bytes_len bytes_len one_entry_cache 1 ''a'' ''yy'' None)) 2 ''a'')
       = Some ''yy''
    \<and> current_size (stats (snd (LRUCache_set bytes_len bytes_len one_entry_cache 1 ''a'' ''yy'' None))) = 1
    \<and> length (cache (snd (LRUCache_set bytes_len bytes_len one_entry_cache 1 ''a'' ''yy'' None))) = 1"
    by simp
  with s2 l tot show ?thesis by blast
qed

subsection \<open>The victim of the LFU policy\<close>

text \<open>Well-formedness of an LFU policy, in terms of the tracked keys.\<close>

lemma lfu_wf_LFU:
  "lfu_wf (LFU h f c) \<longleftrightarrow>
     sorted h \<and> (\<forall>k n. map_of f k = Some n \<longrightarrow> (\<exists>t. (n, t, k) \<in> set h))"
proof -
  have "(\<forall>k \<in> set (map fst f). case map_of f k of None \<Rightarrow> True
            | Some n \<Rightarrow> \<exists>e \<in> set h. fst e = n \<and> snd (snd e) = k)
      \<longleftrightarrow> (\<forall>k n. map_of f k = Some n \<longrightarrow> (\<exists>t. (n, t, k) \<in> set h))"
  proof (intro iffI allI impI ballI)
    fix k n
    assume a: "\<forall>k \<in> set (map fst f). case map_of f k of None \<Rightarrow> True
            | Some n \<Rightarrow> \<exists>e \<in> set h. fst e = n \<and> snd (snd e) = k"
      and m: "map_of f k = Some n"
    from m have "k \<in> set (map fst f)" by (auto dest: map_of_SomeD intro: rev_image_eqI)
    with a m obtain e where "e \<in> set h" "fst e = n" "snd (snd e) = k" by force
    then have "(n, fst (snd e), k) \<in> set h" by (cases e) auto
    then show "\<exists>t. (n, t, k) \<in> set h" ..
  next
    fix k
    assume a: "\<forall>k n. map_of f k = Some n \<longrightarrow> (\<exists>t. (n, t, k) \<in> set h)"
    show "case map_of f k of None \<Rightarrow> True
            | Some n \<Rightarrow> \<exists>e \<in> set h. fst e = n \<and> snd (snd e) = k"
    proof (cases "map_of f k")
      case None
      then show ?thesis by simp
    next
      case (Some n)
      with a obtain t where "(n, t, k) \<in> set h" by blast
      with Some show ?thesis by force
    qed
  qed
  then show ?thesis unfolding lfu_wf.simps list_all_iff list_ex_iff by (rule arg_cong)
qed

declare lfu_wf.simps(1) [simp del]

declare lfu_wf_LFU [simp]

lemma lfu_select_Some:
  "lfu_select h f = (Some k, h') \<Longrightarrow>
   \<exists>d n t. h = d @ (n, t, k) # h' \<and> map_of f k = Some n \<and> list_all (stale f) d"
proof (induction h f rule: lfu_select.induct)
  case (1 f)
  then show ?case by simp
next
  case (2 freq timestamp k0 h f)
  show ?case
  proof (cases "map_of f k0 = Some freq")
    case True
    with "2.prems" have "k = k0" "h' = h" by simp_all
    with True have "(freq, timestamp, k0) # h = [] @ (freq, timestamp, k) # h'
        \<and> map_of f k = Some freq \<and> list_all (stale f) []"
      by simp
    then show ?thesis by blast
  next
    case False
    with "2.prems" have "lfu_select h f = (Some k, h')" by simp
    from "2.IH" [OF False this] obtain d n t where
      "h = d @ (n, t, k) # h'" "map_of f k = Some n" "list_all (stale f) d" by blast
    with False have "(freq, timestamp, k0) # h = ((freq, timestamp, k0) # d) @ (n, t, k) # h'
        \<and> map_of f k = Some n \<and> list_all (stale f) ((freq, timestamp, k0) # d)"
      by (simp add: stale_def)
    then show ?thesis by blast
  qed
qed








lemma lfu_wf_on_remove: "lfu_wf p \<Longrightarrow> lfu_wf (on_remove p k)"
  by (cases p) (auto simp: AList.delete_conv split: if_splits)

lemma lfu_wf_select_remove:
  assumes "lfu_wf p" and "select_victim p st now = (Some k, p')"
  shows "lfu_wf (on_remove p' k)"
proof (cases p)
  case (LFU h f c)
  with assms(2) obtain h' where s: "lfu_select h f = (Some k, h')" and p': "p' = LFU h' f c"
    by (auto simp: Let_def) (metis prod.collapse)
  from lfu_select_Some [OF s] obtain d n t where
    h: "h = d @ (n, t, k) # h'" and d: "list_all (stale f) d" by blast
  from assms(1) LFU h have "sorted h'" by (simp add: sorted_append)
  moreover have "\<exists>t'. (n', t', k') \<in> set h'"
    if "map_of (AList.delete k f) k' = Some n'" for k' n'
  proof -
    from that have ne: "k' \<noteq> k" and tr: "map_of f k' = Some n'"
      by (auto simp: AList.delete_conv split: if_splits)
    with assms(1) LFU obtain t' where "(n', t', k') \<in> set h" by auto
    with h d ne tr have "(n', t', k') \<in> set h'"
      by (auto simp: list_all_iff stale_def)
    then show ?thesis ..
  qed
  ultimately show ?thesis by (simp add: p')
next
  case (LRU ao)
  with assms(2) show ?thesis by (auto split: list.splits)
next
  case (TTL h)
  with assms(2) show ?thesis by (auto simp: Let_def)
qed





subsection \<open>The LRU order over calls other than \<^verbatim>\<open>clear\<close>\<close>

text \<open>
  Every removal but the one of \<^verbatim>\<open>clear\<close> goes through \<^verbatim>\<open>_remove_item\<close>, which tells the
  policy; so the keys of the LRU order are stored keys after \<^verbatim>\<open>get\<close>, \<^verbatim>\<open>set\<close> and
  \<^verbatim>\<open>delete\<close>.
\<close>

lemma init_victims: "lru_keys pol = [] \<Longrightarrow> victims_stored (init msize mm pol)"
  by (simp add: victims_stored_def init_def)

lemma evict_one_victims: "victims_stored s \<Longrightarrow> victims_stored (snd (evict_one s now))"
proof (cases "fst (evict_one s now)")
  case True
  assume "victims_stored s"
  from evict_one_shrinks [OF this True] show ?thesis by simp
next
  case False
  assume v: "victims_stored s"
  from False have st: "storage (snd (evict_one s now)) = storage s"
    by (auto simp: evict_one_def Let_def split: option.splits if_splits)
  from False have "lru_keys (eviction_policy (snd (evict_one s now))) = lru_keys (eviction_policy s)"
    by (cases "eviction_policy s")
      (auto simp: evict_one_def Let_def split: option.splits if_splits list.splits)
  with v st show ?thesis by (simp add: victims_stored_def)
qed

lemma install_victims: "victims_stored s \<Longrightarrow> victims_stored (install s k item)"
  by (cases "eviction_policy s")
    (auto simp: victims_stored_def install_def list_all_iff AList.update_conv' split: option.split)

lemma AS_set_victims:
  assumes "AS_set vsz s now k v t tgs = Some r" and "victims_stored s"
  shows "victims_stored (snd r)"
proof -
  let ?s1 = "if map_of (storage s) k \<noteq> None then remove_item s k else s"
  from AS_set_cases [OF assms(1)] obtain s2 where
    m: "make_space ?s1 now (estimate_size vsz k v) = Some (fst r, s2)"
    and r: "snd r = (if fst r then install s2 k
        (new_item vsz k v now t (case tgs of None \<Rightarrow> [] | Some ts \<Rightarrow> ts)) else s2)"
    by auto
  from assms(2) have "victims_stored ?s1" by (simp add: remove_item_victims)
  with make_space_rule [OF m, where Q = victims_stored] have "victims_stored s2"
    by (simp add: evict_one_victims)
  with r show ?thesis by (simp add: install_victims)
qed

lemma on_access_lru_keys:
  "on_access p k item = Inr q \<Longrightarrow> set (lru_keys q) = set (lru_keys p)"
  by (cases p) (auto simp: Let_def split: if_splits)

lemma touch_victims:
  assumes "victims_stored u" and "on_access (eviction_policy u) k item' = Inr q"
      and "storage w = AList.update k item' (storage u)" and "eviction_policy w = q"
  shows "victims_stored w"
proof -
  from on_access_lru_keys [OF assms(2)] assms(4)
  have "set (lru_keys (eviction_policy w)) = set (lru_keys (eviction_policy u))" by simp
  moreover have "map_of (storage w) k' \<noteq> None" if "map_of (storage u) k' \<noteq> None" for k'
    using that by (simp add: assms(3) AList.update_conv')
  ultimately show ?thesis using assms(1)
    by (simp add: victims_stored_def list_all_iff)
qed

lemma AS_get_victims:
  assumes "AS_get s now k = Inr r" and "victims_stored s"
  shows "victims_stored (snd r)"
proof (cases "map_of (storage s) k")
  case None
  with assms(1) have "storage (snd r) = storage s" "eviction_policy (snd r) = eviction_policy s"
    by (auto simp: AS_get_def Let_def)
  with assms(2) show ?thesis by (simp add: victims_stored_def)
next
  case (Some item)
  show ?thesis
  proof (cases "is_expired item now")
    case True
    from assms(2) have "victims_stored (remove_item s k)" by (rule remove_item_victims)
    moreover from True Some assms(1) have
      "storage (snd r) = storage (remove_item s k)"
      "eviction_policy (snd r) = eviction_policy (remove_item s k)"
      by (auto simp: AS_get_def Let_def remove_item_def)
    ultimately show ?thesis by (simp add: victims_stored_def)
  next
    case False
    let ?item' = "item\<lparr> last_accessed := now, item_access_count := item_access_count item + 1 \<rparr>"
    from False Some assms(1) obtain q where
      q1: "on_access (eviction_policy s) k ?item' = Inr q"
      and q2: "storage (snd r) = AList.update k ?item' (storage s)"
      and q3: "eviction_policy (snd r) = q"
      by (auto simp: AS_get_def Let_def split: sum.splits)
    show ?thesis by (rule touch_victims [OF assms(2) q1 q2 q3])
  qed
qed

text \<open>
  Over calls other than \<^verbatim>\<open>clear\<close>, every key of the LRU order stays a stored key.
\<close>

lemma run_victims_stored:
  "run vsz s cs = Some s' \<Longrightarrow> victims_stored s \<Longrightarrow> Clear \<notin> snd ` set cs \<Longrightarrow>
   victims_stored s'"
proof (induction cs arbitrary: s)
  case Nil
  then show ?case by simp
next
  case (Cons c cs)
  then obtain s1 where s1: "step vsz s (fst c) (snd c) = Some s1" and r: "run vsz s1 cs = Some s'"
    by (auto split: option.splits)
  have "victims_stored s1"
  proof (cases "snd c")
    case (Get k)
    with s1 AS_get_victims [of s "fst c" k] Cons.prems(2) show ?thesis
      by (auto split: sum.splits)
  next
    case (Set k v t tgs)
    with s1 AS_set_victims [of vsz s "fst c" k v t tgs] Cons.prems(2) show ?thesis by auto
  next
    case (Delete k)
    with s1 Cons.prems(2) show ?thesis by (auto simp: AS_delete_def remove_item_victims)
  next
    case Clear
    then have "Clear \<in> snd ` set (c # cs)" by (force simp: image_iff)
    with Cons.prems(3) show ?thesis by simp
  qed
  with Cons.IH [OF r] Cons.prems(3) show ?case by simp
qed

end
